theory Spec2Isabelle
  imports Main "HOL-Library.Word"
begin

unbundle bit_operations_syntax

section \<open>Data model\<close>

text \<open>
  The string class stores UTF-8 bytes (\<open>unsigned char\<close>) and answers index queries in
  UTF-16 code units (\<open>char16_t\<close>). Code points are assembled in \<open>unsigned int\<close>
  (\<open>|\<close> associates to the left, \<open><<\<close> is \<open>push_bit\<close>, \<open>>>\<close> is \<open>drop_bit\<close>, and a
  conversion to a narrower type is \<open>ucast\<close>).
  Indices and sizes are \<open>std::size_t\<close>; they are modelled as \<open>nat\<close>: every index
  computation of the code below is guarded by a comparison with a length, so none wraps.
\<close>

type_synonym u8 = "8 word"
type_synonym char16 = "16 word"
type_synonym u32 = "32 word"

text \<open>
  The immutable buffers (\<open>std::shared_ptr<const std::string>\<close>) live in a store that is
  addressed by position; two views share their data exactly when they hold the same
  address. A view is the class \<open>String\<close>: the buffer, a byte offset, a byte length and the
  lazily filled UTF-16 cache. The members \<open>data_\<close>, \<open>offset_\<close>, \<open>length_\<close> and
  \<open>utf16_cache_\<close> are the fields \<open>m_data\<close>, \<open>m_offset\<close>, \<open>m_length\<close> and
  \<open>m_utf16_cache\<close>.
\<close>

type_synonym buffers = "u8 list list"

record SString =
  m_data :: nat
  m_offset :: nat
  m_length :: nat
  m_utf16_cache :: "char16 list option"

datatype error = StringIndexOutOfBoundsException string

text \<open>
  The byte range every loop of the class runs over: \<open>m_length\<close> bytes from position
  \<open>m_offset\<close> of the buffer (the \<open>std::string_view\<close> of \<open>length()\<close>).
\<close>

definition view_bytes :: "buffers \<Rightarrow> SString \<Rightarrow> u8 list" where
  "view_bytes h s = take (m_length s) (drop (m_offset s) (h ! m_data s))"

text \<open>
  The class invariant of a view in a store (its byte range lies inside its buffer), and the
  invariant of the cache: once filled, it holds the decoded form of the view's bytes (it is
  private and written by \<open>get_utf16\<close> only). \<open>cache_ok\<close> is stated after the decoder.
\<close>

definition in_bounds :: "buffers \<Rightarrow> SString \<Rightarrow> bool" where
  "in_bounds h s = (m_data s < length h \<and> m_offset s + m_length s \<le> length (h ! m_data s))"

section \<open>The UTF-8 decoder: \<open>String::get_utf16\<close>\<close>

text \<open>
  One iteration of the \<open>while (str < end)\<close> loop of \<open>get_utf16\<close>. The bytes of the range are
  \<open>bs\<close>, the pointer \<open>str\<close> is its position in the range (\<open>end\<close> is \<open>length bs\<close>), and the
  iteration returns the new \<open>str\<close> with the units it pushed on \<open>result\<close>.
\<close>

definition get_utf16_step :: "u8 list \<Rightarrow> nat \<Rightarrow> nat \<times> char16 list" where
  "get_utf16_step bs str =
    (if bs ! str < 0x80 then (str + 1, [ucast (bs ! str)])
     else if (bs ! str AND 0xE0) = 0xC0 then
       (if str + 1 \<ge> length bs \<or> (bs ! (str + 1) AND 0xC0) \<noteq> 0x80 then (str + 1, [0xFFFD])
        else
          let codepoint = (push_bit 6 (ucast (bs ! str) AND 0x1F)
                           OR (ucast (bs ! (str + 1)) AND 0x3F) :: u32)
          in if codepoint < 0x80 then (str + 2, [0xFFFD, 0xFFFD])
             else (str + 2, [ucast codepoint]))
     else if (bs ! str AND 0xF0) = 0xE0 then
       (if str + 2 \<ge> length bs \<or> (bs ! (str + 1) AND 0xC0) \<noteq> 0x80
           \<or> (bs ! (str + 2) AND 0xC0) \<noteq> 0x80 then (str + 1, [0xFFFD])
        else
          let codepoint = ((push_bit 12 (ucast (bs ! str) AND 0x0F)
                            OR push_bit 6 (ucast (bs ! (str + 1)) AND 0x3F))
                           OR (ucast (bs ! (str + 2)) AND 0x3F) :: u32)
          in if codepoint < 0x800 \<or> (codepoint \<ge> 0xD800 \<and> codepoint \<le> 0xDFFF)
             then (str + 3, [0xFFFD, 0xFFFD, 0xFFFD])
             else (str + 3, [ucast codepoint]))
     else if (bs ! str AND 0xF8) = 0xF0 then
       (if str + 3 \<ge> length bs \<or> (bs ! (str + 1) AND 0xC0) \<noteq> 0x80
           \<or> (bs ! (str + 2) AND 0xC0) \<noteq> 0x80 \<or> (bs ! (str + 3) AND 0xC0) \<noteq> 0x80
        then (str + 1, [0xFFFD])
        else
          let codepoint = (((push_bit 18 (ucast (bs ! str) AND 0x07)
                             OR push_bit 12 (ucast (bs ! (str + 1)) AND 0x3F))
                            OR push_bit 6 (ucast (bs ! (str + 2)) AND 0x3F))
                           OR (ucast (bs ! (str + 3)) AND 0x3F) :: u32)
          in if codepoint < 0x10000 \<or> codepoint > 0x10FFFF
             then (str + 4, [0xFFFD, 0xFFFD, 0xFFFD, 0xFFFD])
             else
               let codepoint = codepoint - 0x10000
               in (str + 4, [ucast (0xD800 + drop_bit 10 codepoint),
                             ucast (0xDC00 + (codepoint AND 0x3FF))]))
     else (str + 1, [0xFFFD]))"

lemma get_utf16_step_advance:
  "str < fst (get_utf16_step bs str)"
  by (simp add: get_utf16_step_def Let_def)

lemma get_utf16_step_within:
  "str < length bs \<Longrightarrow> fst (get_utf16_step bs str) \<le> length bs"
  by (simp add: get_utf16_step_def Let_def)

text \<open>
  The loop itself: it runs while \<open>str < end\<close> and returns the final pointer together with
  \<open>result\<close>.
\<close>

function get_utf16_loop :: "u8 list \<Rightarrow> nat \<Rightarrow> char16 list \<Rightarrow> nat \<times> char16 list" where
  "get_utf16_loop bs str result =
    (if str < length bs
     then get_utf16_loop bs (fst (get_utf16_step bs str)) (result @ snd (get_utf16_step bs str))
     else (str, result))"
  by pat_completeness auto
termination
proof (relation "measure (\<lambda>(bs, str, result). length bs - str)")
  show "wf (measure (\<lambda>(bs, str, result). length bs - str))"
    by simp
next
  fix bs :: "u8 list" and str :: nat and result :: "char16 list"
  assume "str < length bs"
  then show "((bs, fst (get_utf16_step bs str), result @ snd (get_utf16_step bs str)),
              (bs, str, result)) \<in> measure (\<lambda>(bs, str, result). length bs - str)"
    using get_utf16_step_advance [of str bs] by simp
qed

declare get_utf16_loop.simps [simp del]

text \<open>
  \<open>get_utf16\<close>: the cached sequence when there is one; otherwise the loop over the view's bytes,
  whose result is stored in the (mutable) cache. The second component is the view afterwards.
\<close>

definition decode_utf16 :: "u8 list \<Rightarrow> char16 list" where
  "decode_utf16 bs = snd (get_utf16_loop bs 0 [])"

definition get_utf16 :: "buffers \<Rightarrow> SString \<Rightarrow> char16 list \<times> SString" where
  "get_utf16 h s =
    (case m_utf16_cache s of
       Some cache \<Rightarrow> (cache, s)
     | None \<Rightarrow>
         let result = decode_utf16 (view_bytes h s)
         in (result, s\<lparr>m_utf16_cache := Some result\<rparr>))"

definition cache_ok :: "buffers \<Rightarrow> SString \<Rightarrow> bool" where
  "cache_ok h s =
    (case m_utf16_cache s of None \<Rightarrow> True | Some cache \<Rightarrow> cache = decode_utf16 (view_bytes h s))"

section \<open>Counting units: \<open>detail::count_utf16_code_units\<close> and \<open>String::length\<close>\<close>

text \<open>
  One iteration of the \<open>while (str < end)\<close> loop of \<open>count_utf16_code_units\<close>: the new \<open>str\<close> and
  the amount added to \<open>count\<close>.
\<close>

definition count_utf16_code_units_step :: "u8 list \<Rightarrow> nat \<Rightarrow> nat \<times> nat" where
  "count_utf16_code_units_step bs str =
    (if bs ! str < 0x80 then (str + 1, 1)
     else if (bs ! str AND 0xE0) = 0xC0 then
       (if str + 1 \<ge> length bs \<or> (bs ! (str + 1) AND 0xC0) \<noteq> 0x80 then (str + 1, 1)
        else
          let codepoint = (push_bit 6 (ucast (bs ! str) AND 0x1F)
                           OR (ucast (bs ! (str + 1)) AND 0x3F) :: u32)
          in if codepoint < 0x80 then (str + 2, 2)
             else (str + 2, 1))
     else if (bs ! str AND 0xF0) = 0xE0 then
       (if str + 2 \<ge> length bs \<or> (bs ! (str + 1) AND 0xC0) \<noteq> 0x80
           \<or> (bs ! (str + 2) AND 0xC0) \<noteq> 0x80 then (str + 1, 1)
        else
          let codepoint = ((push_bit 12 (ucast (bs ! str) AND 0x0F)
                            OR push_bit 6 (ucast (bs ! (str + 1)) AND 0x3F))
                           OR (ucast (bs ! (str + 2)) AND 0x3F) :: u32)
          in if codepoint < 0x800 \<or> (codepoint \<ge> 0xD800 \<and> codepoint \<le> 0xDFFF)
             then (str + 3, 3)
             else (str + 3, 1))
     else if (bs ! str AND 0xF8) = 0xF0 then
       (if str + 3 \<ge> length bs \<or> (bs ! (str + 1) AND 0xC0) \<noteq> 0x80
           \<or> (bs ! (str + 2) AND 0xC0) \<noteq> 0x80 \<or> (bs ! (str + 3) AND 0xC0) \<noteq> 0x80
        then (str + 1, 1)
        else
          let codepoint = (((push_bit 18 (ucast (bs ! str) AND 0x07)
                             OR push_bit 12 (ucast (bs ! (str + 1)) AND 0x3F))
                            OR push_bit 6 (ucast (bs ! (str + 2)) AND 0x3F))
                           OR (ucast (bs ! (str + 3)) AND 0x3F) :: u32)
          in if codepoint < 0x10000 \<or> codepoint > 0x10FFFF
             then (str + 4, 4)
             else (str + 4, 2))
     else (str + 1, 1))"

lemma count_utf16_code_units_step_advance:
  "str < fst (count_utf16_code_units_step bs str)"
  by (simp add: count_utf16_code_units_step_def Let_def)

function count_utf16_code_units_loop :: "u8 list \<Rightarrow> nat \<Rightarrow> nat \<Rightarrow> nat" where
  "count_utf16_code_units_loop bs str count =
    (if str < length bs
     then count_utf16_code_units_loop bs (fst (count_utf16_code_units_step bs str))
            (count + snd (count_utf16_code_units_step bs str))
     else count)"
  by pat_completeness auto
termination
proof (relation "measure (\<lambda>(bs, str, count). length bs - str)")
  show "wf (measure (\<lambda>(bs, str, count). length bs - str))"
    by simp
next
  fix bs :: "u8 list" and str count :: nat
  assume "str < length bs"
  then show "((bs, fst (count_utf16_code_units_step bs str),
               count + snd (count_utf16_code_units_step bs str)), (bs, str, count))
             \<in> measure (\<lambda>(bs, str, count). length bs - str)"
    using count_utf16_code_units_step_advance [of str bs] by simp
qed

declare count_utf16_code_units_loop.simps [simp del]

definition count_utf16_code_units :: "u8 list \<Rightarrow> nat" where
  "count_utf16_code_units utf8_str = count_utf16_code_units_loop utf8_str 0 0"

text \<open>
  \<open>String::length\<close>: the length of the cache when it is filled, \<open>0\<close> for an empty byte range,
  otherwise the count over a copy of the view's bytes. \<open>String::is_empty\<close> looks at the byte
  length only. The call of \<open>detail::init_locale\<close> at the head of \<open>length\<close> sets the global
  locale once and touches neither the view nor the buffers; it has no counterpart here.
\<close>

definition length_String :: "buffers \<Rightarrow> SString \<Rightarrow> nat" where
  "length_String h s =
    (case m_utf16_cache s of
       Some cache \<Rightarrow> length cache
     | None \<Rightarrow> if m_length s = 0 then 0 else count_utf16_code_units (view_bytes h s))"

definition is_empty :: "SString \<Rightarrow> bool" where
  "is_empty s = (m_length s = 0)"

section \<open>Byte-exact equality: \<open>String::equals\<close>\<close>

text \<open>
  \<open>shares_data_with\<close> compares the two shared pointers. The pointers \<open>this_data\<close> and
  \<open>other_data\<close> are the buffers from the views' offsets on; the \<open>for\<close> loop compares them
  byte by byte up to \<open>min_length\<close>.
\<close>

definition shares_data_with :: "SString \<Rightarrow> SString \<Rightarrow> bool" where
  "shares_data_with s other = (m_data s = m_data other)"

function equals_loop :: "u8 list \<Rightarrow> u8 list \<Rightarrow> nat \<Rightarrow> nat \<Rightarrow> bool" where
  "equals_loop this_data other_data min_length i =
    (if i < min_length
     then (if this_data ! i \<noteq> other_data ! i then False
           else equals_loop this_data other_data min_length (i + 1))
     else True)"
  by pat_completeness auto
termination
  by (relation "measure (\<lambda>(this_data, other_data, min_length, i). min_length - i)") auto

declare equals_loop.simps [simp del]

definition equals :: "buffers \<Rightarrow> SString \<Rightarrow> SString \<Rightarrow> bool" where
  "equals h s other =
    (if shares_data_with s other \<and> m_offset s = m_offset other \<and> m_length s = m_length other
     then True
     else
       let this_data = drop (m_offset s) (h ! m_data s);
           other_data = drop (m_offset other) (h ! m_data other);
           min_length = min (m_length s) (m_length other)
       in if m_length s \<noteq> m_length other then False
          else equals_loop this_data other_data min_length 0)"

section \<open>Code points: \<open>String::code_point_at\<close> and \<open>String::code_point_count\<close>\<close>

text \<open>
  \<open>CodePoint\<close> wraps a 32-bit value; the index classes wrap a \<open>std::size_t\<close>. The methods are
  \<open>const\<close>: what they change is the cache alone, through \<open>get_utf16\<close>, and they return the
  value computed from the decoded sequence, or the exception they throw.
\<close>

definition code_point_at :: "buffers \<Rightarrow> SString \<Rightarrow> nat \<Rightarrow> error + u32" where
  "code_point_at h s index =
    (let utf16 = fst (get_utf16 h s)
     in if index \<ge> length utf16
        then Inl (StringIndexOutOfBoundsException ''Index out of bounds'')
        else
          let first = utf16 ! index
          in if first \<ge> 0xD800 \<and> first \<le> 0xDBFF \<and> index + 1 < length utf16
             then
               (let second = utf16 ! (index + 1)
                in if second \<ge> 0xDC00 \<and> second \<le> 0xDFFF
                   then Inr (0x10000 + push_bit 10 (ucast first - 0xD800)
                             + (ucast second - 0xDC00))
                   else Inr (ucast first))
             else Inr (ucast first))"

text \<open>
  The \<open>for\<close> loop of \<open>code_point_count\<close>: \<open>i\<close> runs to \<open>end_index\<close>, steps over the low
  surrogate of a pair, and every iteration adds one to \<open>count\<close>.
\<close>

function code_point_count_loop :: "char16 list \<Rightarrow> nat \<Rightarrow> nat \<Rightarrow> nat \<Rightarrow> nat" where
  "code_point_count_loop utf16 end_index i count =
    (if i < end_index
     then
       (let ch = utf16 ! i;
            i' = (if ch \<ge> 0xD800 \<and> ch \<le> 0xDBFF \<and> i + 1 < end_index
                  then (let next = utf16 ! (i + 1)
                        in if next \<ge> 0xDC00 \<and> next \<le> 0xDFFF then i + 1 else i)
                  else i)
        in code_point_count_loop utf16 end_index (i' + 1) (count + 1))
     else count)"
  by pat_completeness auto
termination
  by (relation "measure (\<lambda>(utf16, end_index, i, count). end_index - i)")
     (auto simp: Let_def)

declare code_point_count_loop.simps [simp del]

definition code_point_count :: "buffers \<Rightarrow> SString \<Rightarrow> nat \<Rightarrow> nat \<Rightarrow> error + nat" where
  "code_point_count h s begin_index end_index =
    (let utf16 = fst (get_utf16 h s)
     in if begin_index > end_index \<or> end_index > length utf16
        then Inl (StringIndexOutOfBoundsException ''Invalid range'')
        else Inr (code_point_count_loop utf16 end_index begin_index 0))"

section \<open>Slicing: \<open>String::substring\<close>\<close>

text \<open>
  The constructor from a \<open>std::string\<close> allocates a fresh buffer and spans it, with an empty
  cache.
\<close>

definition String_new :: "buffers \<Rightarrow> u8 list \<Rightarrow> buffers \<times> SString" where
  "String_new h str =
    (h @ [str],
     \<lparr>m_data = length h, m_offset = 0, m_length = length str, m_utf16_cache = None\<rparr>)"

text \<open>
  \<open>substring\<close> holds the same scan twice, once for \<open>beginIndex\<close> and once for \<open>endIndex\<close>: the
  two loops differ in the bound alone. One iteration returns the new \<open>str\<close> and the amount
  added to \<open>utf16_index\<close>; the loop runs while \<open>str < end\<close> and \<open>utf16_index\<close> is below the
  bound, and leaves \<open>str\<close>, whose distance from the view's first byte is the byte offset.
\<close>

definition substring_scan_step :: "u8 list \<Rightarrow> nat \<Rightarrow> nat \<times> nat" where
  "substring_scan_step bs str =
    (if bs ! str < 0x80 then (str + 1, 1)
     else if (bs ! str AND 0xE0) = 0xC0 then
       (if str + 1 \<ge> length bs \<or> (bs ! (str + 1) AND 0xC0) \<noteq> 0x80 then (str + 1, 1)
        else (str + 2, 1))
     else if (bs ! str AND 0xF0) = 0xE0 then
       (if str + 2 \<ge> length bs \<or> (bs ! (str + 1) AND 0xC0) \<noteq> 0x80
           \<or> (bs ! (str + 2) AND 0xC0) \<noteq> 0x80 then (str + 1, 1)
        else (str + 3, 1))
     else if (bs ! str AND 0xF8) = 0xF0 then
       (if str + 3 \<ge> length bs \<or> (bs ! (str + 1) AND 0xC0) \<noteq> 0x80
           \<or> (bs ! (str + 2) AND 0xC0) \<noteq> 0x80 \<or> (bs ! (str + 3) AND 0xC0) \<noteq> 0x80
        then (str + 1, 1)
        else (str + 4, 2))
     else (str + 1, 1))"

lemma substring_scan_step_advance:
  "str < fst (substring_scan_step bs str)"
  by (simp add: substring_scan_step_def)

function substring_scan_loop :: "u8 list \<Rightarrow> nat \<Rightarrow> nat \<Rightarrow> nat \<Rightarrow> nat" where
  "substring_scan_loop bs bound str utf16_index =
    (if str < length bs \<and> utf16_index < bound
     then substring_scan_loop bs bound (fst (substring_scan_step bs str))
            (utf16_index + snd (substring_scan_step bs str))
     else str)"
  by pat_completeness auto
termination
proof (relation "measure (\<lambda>(bs, bound, str, utf16_index). length bs - str)")
  show "wf (measure (\<lambda>(bs, bound, str, utf16_index). length bs - str))"
    by simp
next
  fix bs :: "u8 list" and bound str utf16_index :: nat
  assume "str < length bs \<and> utf16_index < bound"
  then show "((bs, bound, fst (substring_scan_step bs str),
               utf16_index + snd (substring_scan_step bs str)), (bs, bound, str, utf16_index))
             \<in> measure (\<lambda>(bs, bound, str, utf16_index). length bs - str)"
    using substring_scan_step_advance [of str bs] by auto
qed

declare substring_scan_loop.simps [simp del]

definition substring :: "buffers \<Rightarrow> SString \<Rightarrow> nat \<Rightarrow> nat \<Rightarrow> error + (buffers \<times> SString)" where
  "substring h s beginIndex endIndex =
    (let utf16 = fst (get_utf16 h s);
         this = snd (get_utf16 h s);
         len = length utf16
     in if beginIndex > len
        then Inl (StringIndexOutOfBoundsException ''beginIndex is out of bounds'')
        else if endIndex > len
        then Inl (StringIndexOutOfBoundsException ''endIndex is out of bounds'')
        else if beginIndex > endIndex
        then Inl (StringIndexOutOfBoundsException ''beginIndex cannot be larger than endIndex'')
        else if beginIndex = 0 \<and> endIndex = length utf16 then Inr (h, this)
        else if beginIndex = endIndex then Inr (String_new h [])
        else
          let bs = view_bytes h s;
              utf8_begin = (if beginIndex > 0 then substring_scan_loop bs beginIndex 0 0 else 0);
              utf8_end = (if endIndex > 0 then substring_scan_loop bs endIndex 0 0 else 0)
          in Inr (h, \<lparr>m_data = m_data s, m_offset = m_offset s + utf8_begin,
                       m_length = utf8_end - utf8_begin, m_utf16_cache = None\<rparr>))"

section \<open>Matching: \<open>String::startsWith\<close> and \<open>String::endsWith\<close>\<close>

text \<open>
  Both methods compare decoded units from a start position (\<open>offset\<close>, or \<open>len - suffix_len\<close>)
  with the units of the argument; the comparison loop is the same in the two.
\<close>

function compare_units_loop :: "char16 list \<Rightarrow> char16 list \<Rightarrow> nat \<Rightarrow> nat \<Rightarrow> nat \<Rightarrow> bool" where
  "compare_units_loop utf16 other_utf16 start other_len i =
    (if i < other_len
     then (if utf16 ! (start + i) \<noteq> other_utf16 ! i then False
           else compare_units_loop utf16 other_utf16 start other_len (i + 1))
     else True)"
  by pat_completeness auto
termination
  by (relation "measure (\<lambda>(utf16, other_utf16, start, other_len, i). other_len - i)") auto

declare compare_units_loop.simps [simp del]

definition startsWith :: "buffers \<Rightarrow> SString \<Rightarrow> SString \<Rightarrow> nat \<Rightarrow> error + bool" where
  "startsWith h s prefix offset =
    (let utf16 = fst (get_utf16 h s);
         prefix_utf16 = fst (get_utf16 h prefix);
         len = length utf16;
         prefix_len = length prefix_utf16
     in if offset > len
        then Inl (StringIndexOutOfBoundsException ''offset is out of bounds'')
        else if prefix_len = 0 then Inr True
        else if len - offset < prefix_len then Inr False
        else Inr (compare_units_loop utf16 prefix_utf16 offset prefix_len 0))"

definition endsWith :: "buffers \<Rightarrow> SString \<Rightarrow> SString \<Rightarrow> bool" where
  "endsWith h s suffix =
    (let utf16 = fst (get_utf16 h s);
         suffix_utf16 = fst (get_utf16 h suffix);
         len = length utf16;
         suffix_len = length suffix_utf16
     in if suffix_len = 0 then True
        else if len < suffix_len then False
        else
          let start = len - suffix_len
          in compare_units_loop utf16 suffix_utf16 start suffix_len 0)"

section \<open>The decoder consumes the range; the counter agrees with it\<close>

lemma get_utf16_loop_end:
  "str \<le> length bs \<Longrightarrow> fst (get_utf16_loop bs str result) = length bs"
proof (induction bs str result rule: get_utf16_loop.induct)
  case (1 bs str result)
  show ?case
  proof (cases "str < length bs")
    case True
    then show ?thesis
      using "1.IH" get_utf16_step_within [of str bs]
      by (subst get_utf16_loop.simps) simp
  next
    case False
    with "1.prems" show ?thesis
      by (subst get_utf16_loop.simps) simp
  qed
qed

lemma count_step_eq:
  "count_utf16_code_units_step bs str =
     (fst (get_utf16_step bs str), length (snd (get_utf16_step bs str)))"
  by (simp add: count_utf16_code_units_step_def get_utf16_step_def Let_def)

lemma count_loop_eq:
  "count_utf16_code_units_loop bs str (length result) =
     length (snd (get_utf16_loop bs str result))"
proof (induction bs str result rule: get_utf16_loop.induct)
  case (1 bs str result)
  show ?case
  proof (cases "str < length bs")
    case True
    then show ?thesis
      using "1.IH"
      by (subst get_utf16_loop.simps, subst count_utf16_code_units_loop.simps)
         (simp add: count_step_eq)
  next
    case False
    then show ?thesis
      by (subst get_utf16_loop.simps, subst count_utf16_code_units_loop.simps) simp
  qed
qed

lemma count_eq_length_decode:
  "count_utf16_code_units bs = length (decode_utf16 bs)"
  using count_loop_eq [of bs 0 "[]"]
  by (simp add: count_utf16_code_units_def decode_utf16_def)

lemma decode_utf16_Nil: "decode_utf16 [] = []"
  by (simp add: decode_utf16_def get_utf16_loop.simps)

text \<open>
  C2. For every byte sequence, \<open>count_utf16_code_units\<close> returns the number of units that the
  decoding loop of \<open>get_utf16\<close> produces for the same bytes. So for every view whose cache is
  not filled, \<open>length()\<close> is the length of the sequence that \<open>get_utf16\<close> returns and caches,
  and \<open>length()\<close> gives the same number once the cache is filled.
\<close>

theorem count_utf16_code_units_agrees_with_get_utf16:
  "count_utf16_code_units bs = length (snd (get_utf16_loop bs 0 []))
   \<and> (m_utf16_cache s = None \<longrightarrow>
        length_String h s = length (fst (get_utf16 h s))
        \<and> m_utf16_cache (snd (get_utf16 h s)) = Some (fst (get_utf16 h s))
        \<and> length_String h (snd (get_utf16 h s)) = length_String h s)"
proof (intro conjI impI)
  show "count_utf16_code_units bs = length (snd (get_utf16_loop bs 0 []))"
    using count_eq_length_decode [of bs] by (simp add: decode_utf16_def)
next
  assume none: "m_utf16_cache s = None"
  then show len: "length_String h s = length (fst (get_utf16 h s))"
    by (simp add: length_String_def get_utf16_def Let_def count_eq_length_decode
        view_bytes_def decode_utf16_Nil)
  from none show "m_utf16_cache (snd (get_utf16 h s)) = Some (fst (get_utf16 h s))"
    by (simp add: get_utf16_def Let_def)
  from none len show "length_String h (snd (get_utf16 h s)) = length_String h s"
    by (simp add: length_String_def get_utf16_def Let_def)
qed

theorem count_utf16_code_units_agrees_witness:
  "count_utf16_code_units [0x41, 0xF0, 0x9D, 0x92, 0x9C, 0x42] = 4
   \<and> length_String [[0x41, 0xF0, 0x9D, 0x92, 0x9C, 0x42]]
        \<lparr>m_data = 0, m_offset = 0, m_length = 6, m_utf16_cache = None\<rparr> = 4"
proof -
  let ?bs = "[0x41, 0xF0, 0x9D, 0x92, 0x9C, 0x42] :: u8 list"
  let ?s = "\<lparr>m_data = 0, m_offset = 0, m_length = 6, m_utf16_cache = None\<rparr>"
  have loop: "snd (get_utf16_loop ?bs 0 []) = [0x41, 0xD835, 0xDC9C, 0x42]"
    by code_simp
  have dec: "fst (get_utf16 [?bs] ?s) = [0x41, 0xD835, 0xDC9C, 0x42]"
    by code_simp
  have none: "m_utf16_cache ?s = None"
    by simp
  from count_utf16_code_units_agrees_with_get_utf16 [of ?bs ?s "[?bs]"] none loop dec
  show ?thesis
    by simp
qed

section \<open>Emptiness and length\<close>


lemma get_utf16_step_emits: "snd (get_utf16_step bs str) \<noteq> []"
  by (simp add: get_utf16_step_def Let_def)

lemma get_utf16_loop_grows:
  "length result \<le> length (snd (get_utf16_loop bs str result))"
proof (induction bs str result rule: get_utf16_loop.induct)
  case (1 bs str result)
  show ?case
  proof (cases "str < length bs")
    case True
    then have "length (result @ snd (get_utf16_step bs str))
        \<le> length (snd (get_utf16_loop bs str result))"
      using "1.IH" by (subst get_utf16_loop.simps) simp
    then show ?thesis by simp
  next
    case False
    then show ?thesis by (subst get_utf16_loop.simps) simp
  qed
qed

lemma decode_utf16_eq_Nil_iff: "decode_utf16 bs = [] \<longleftrightarrow> bs = []"
proof
  assume dec: "decode_utf16 bs = []"
  show "bs = []"
  proof (rule ccontr)
    assume "bs \<noteq> []"
    then have lt: "0 < length bs" by simp
    have "length ([] @ snd (get_utf16_step bs 0))
        \<le> length (snd (get_utf16_loop bs (fst (get_utf16_step bs 0)) ([] @ snd (get_utf16_step bs 0))))"
      by (rule get_utf16_loop_grows)
    also have "\<dots> = length (decode_utf16 bs)"
      using lt by (simp add: decode_utf16_def get_utf16_loop.simps [of bs 0])
    finally show False
      using dec get_utf16_step_emits [of bs 0] by simp
  qed
next
  assume "bs = []"
  then show "decode_utf16 bs = []" by (simp add: decode_utf16_Nil)
qed

lemma length_view_bytes: "in_bounds h s \<Longrightarrow> length (view_bytes h s) = m_length s"
  by (auto simp: in_bounds_def view_bytes_def)

lemma length_String_eq_get_utf16: "length_String h s = length (fst (get_utf16 h s))"
  by (cases "m_utf16_cache s")
     (simp_all add: length_String_def get_utf16_def Let_def count_eq_length_decode
        view_bytes_def decode_utf16_Nil)

lemma length_String_zero_iff:
  assumes "in_bounds h s" and "cache_ok h s"
  shows "length_String h s = 0 \<longleftrightarrow> m_length s = 0"
proof -
  have "fst (get_utf16 h s) = decode_utf16 (view_bytes h s)"
    using assms(2) by (cases "m_utf16_cache s") (simp_all add: get_utf16_def cache_ok_def Let_def)
  then have "length_String h s = 0 \<longleftrightarrow> view_bytes h s = []"
    by (simp add: length_String_eq_get_utf16 decode_utf16_eq_Nil_iff)
  also have "\<dots> \<longleftrightarrow> m_length s = 0"
    using length_view_bytes [OF assms(1)] by (metis length_0_conv)
  finally show ?thesis .
qed

text \<open>
  C10. For every view that satisfies the class invariants, \<open>is_empty()\<close> holds exactly when
  \<open>length()\<close> is \<open>0\<close>: \<open>is_empty\<close> looks at the byte length and \<open>length\<close> counts units, and
  every iteration of the decoder consumes at least one byte and pushes at least one unit.
\<close>

theorem is_empty_iff_length_zero:
  assumes "in_bounds h s" and "cache_ok h s"
  shows "is_empty s \<longleftrightarrow> length_String h s = 0"
  using assms by (simp add: is_empty_def length_String_zero_iff)

theorem is_empty_iff_length_zero_witness:
  "in_bounds [[0x41], []] \<lparr>m_data = 0, m_offset = 0, m_length = 1, m_utf16_cache = None\<rparr>
   \<and> cache_ok [[0x41], []] \<lparr>m_data = 0, m_offset = 0, m_length = 1, m_utf16_cache = None\<rparr>
   \<and> \<not> is_empty \<lparr>m_data = 0, m_offset = 0, m_length = 1, m_utf16_cache = None\<rparr>
   \<and> length_String [[0x41], []]
         \<lparr>m_data = 0, m_offset = 0, m_length = 1, m_utf16_cache = None\<rparr> \<noteq> 0
   \<and> in_bounds [[0x41], []] \<lparr>m_data = 1, m_offset = 0, m_length = 0, m_utf16_cache = Some []\<rparr>
   \<and> cache_ok [[0x41], []] \<lparr>m_data = 1, m_offset = 0, m_length = 0, m_utf16_cache = Some []\<rparr>
   \<and> is_empty \<lparr>m_data = 1, m_offset = 0, m_length = 0, m_utf16_cache = Some []\<rparr>
   \<and> length_String [[0x41], []]
         \<lparr>m_data = 1, m_offset = 0, m_length = 0, m_utf16_cache = Some []\<rparr> = 0"
proof -
  let ?h = "[[0x41], []] :: buffers"
  let ?s = "\<lparr>m_data = 0, m_offset = 0, m_length = 1, m_utf16_cache = None\<rparr>"
  let ?e = "\<lparr>m_data = 1, m_offset = 0, m_length = 0, m_utf16_cache = Some []\<rparr>"
  have bs: "in_bounds ?h ?s" and be: "in_bounds ?h ?e"
    by (simp_all add: in_bounds_def)
  have cs: "cache_ok ?h ?s" and ce: "cache_ok ?h ?e"
    by (simp_all add: cache_ok_def view_bytes_def decode_utf16_Nil)
  have "\<not> is_empty ?s" and "is_empty ?e"
    by (simp_all add: is_empty_def)
  with is_empty_iff_length_zero [OF bs cs] is_empty_iff_length_zero [OF be ce] bs be cs ce
  show ?thesis
    by simp
qed

section \<open>Equality is equality of the byte ranges\<close>

lemma equals_loop_iff:
  "equals_loop xs ys n i \<longleftrightarrow> (\<forall>j. i \<le> j \<and> j < n \<longrightarrow> xs ! j = ys ! j)"
proof (induction xs ys n i rule: equals_loop.induct)
  case (1 xs ys n i)
  show ?case
  proof (cases "i < n")
    case True
    show ?thesis
    proof (cases "xs ! i = ys ! i")
      case True
      have "i \<le> j \<longleftrightarrow> j = i \<or> i + 1 \<le> j" for j
        by auto
      then have "(\<forall>j. i \<le> j \<and> j < n \<longrightarrow> xs ! j = ys ! j)
          \<longleftrightarrow> (\<forall>j. i + 1 \<le> j \<and> j < n \<longrightarrow> xs ! j = ys ! j)"
        using True by auto
      then show ?thesis
        using "1.IH" \<open>i < n\<close> True by (subst equals_loop.simps) simp
    next
      case False
      then show ?thesis
        using \<open>i < n\<close> by (subst equals_loop.simps) auto
    qed
  next
    case False
    then show ?thesis by (subst equals_loop.simps) auto
  qed
qed

lemma take_eq_iff_nth:
  "n \<le> length xs \<Longrightarrow> n \<le> length ys \<Longrightarrow> take n xs = take n ys \<longleftrightarrow> (\<forall>j<n. xs ! j = ys ! j)"
  by (auto simp: list_eq_iff_nth_eq)

lemma equals_iff:
  assumes "in_bounds h a" and "in_bounds h b"
  shows "equals h a b \<longleftrightarrow> m_length a = m_length b \<and> view_bytes h a = view_bytes h b"
proof (cases "shares_data_with a b \<and> m_offset a = m_offset b \<and> m_length a = m_length b")
  case True
  then show ?thesis by (simp add: equals_def view_bytes_def shares_data_with_def)
next
  case False
  show ?thesis
  proof (cases "m_length a = m_length b")
    case True
    have la: "m_length a \<le> length (drop (m_offset a) (h ! m_data a))"
      using assms(1) by (auto simp: in_bounds_def)
    have lb: "m_length a \<le> length (drop (m_offset b) (h ! m_data b))"
      using assms(2) True by (auto simp: in_bounds_def)
    have "equals h a b
        = equals_loop (drop (m_offset a) (h ! m_data a)) (drop (m_offset b) (h ! m_data b))
            (m_length a) 0"
      using False True by (auto simp: equals_def Let_def)
    also have "\<dots> \<longleftrightarrow> (\<forall>j<m_length a. drop (m_offset a) (h ! m_data a) ! j
        = drop (m_offset b) (h ! m_data b) ! j)"
      by (simp add: equals_loop_iff)
    also have "\<dots> \<longleftrightarrow> view_bytes h a = view_bytes h b"
      using take_eq_iff_nth [OF la lb] True by (simp add: view_bytes_def)
    finally show ?thesis
      using True by simp
  next
    case False
    then show ?thesis by (simp add: equals_def Let_def)
  qed
qed

text \<open>
  C5. For every pair of views that lie inside their buffers, \<open>equals\<close> returns true exactly
  when the two have the same byte length and the same bytes over their ranges. The fast path
  (same buffer, same offset, same length) answers true, and there the byte ranges are the
  same. Two encodings of the same rendered text have different bytes and compare unequal
  (the witness: precomposed against combining-mark \<open>cafe\<close> with an accent).
\<close>

theorem equals_iff_same_bytes:
  assumes "in_bounds h a" and "in_bounds h b"
  shows "(equals h a b \<longleftrightarrow> m_length a = m_length b \<and> view_bytes h a = view_bytes h b)
    \<and> (shares_data_with a b \<and> m_offset a = m_offset b \<and> m_length a = m_length b
        \<longrightarrow> equals h a b \<and> view_bytes h a = view_bytes h b)"
proof
  show "equals h a b \<longleftrightarrow> m_length a = m_length b \<and> view_bytes h a = view_bytes h b"
    using assms by (rule equals_iff)
  show "shares_data_with a b \<and> m_offset a = m_offset b \<and> m_length a = m_length b
        \<longrightarrow> equals h a b \<and> view_bytes h a = view_bytes h b"
    by (simp add: equals_def shares_data_with_def view_bytes_def)
qed

theorem equals_iff_same_bytes_witness:
  "in_bounds [[0x63, 0x61, 0x66, 0xC3, 0xA9], [0x63, 0x61, 0x66, 0x65, 0xCC, 0x81],
              [0x78, 0x63, 0x61, 0x66, 0xC3, 0xA9]]
     \<lparr>m_data = 0, m_offset = 0, m_length = 5, m_utf16_cache = None\<rparr>
   \<and> in_bounds [[0x63, 0x61, 0x66, 0xC3, 0xA9], [0x63, 0x61, 0x66, 0x65, 0xCC, 0x81],
              [0x78, 0x63, 0x61, 0x66, 0xC3, 0xA9]]
     \<lparr>m_data = 1, m_offset = 0, m_length = 6, m_utf16_cache = None\<rparr>
   \<and> in_bounds [[0x63, 0x61, 0x66, 0xC3, 0xA9], [0x63, 0x61, 0x66, 0x65, 0xCC, 0x81],
              [0x78, 0x63, 0x61, 0x66, 0xC3, 0xA9]]
     \<lparr>m_data = 2, m_offset = 1, m_length = 5, m_utf16_cache = None\<rparr>
   \<and> \<not> equals [[0x63, 0x61, 0x66, 0xC3, 0xA9], [0x63, 0x61, 0x66, 0x65, 0xCC, 0x81],
              [0x78, 0x63, 0x61, 0x66, 0xC3, 0xA9]]
     \<lparr>m_data = 0, m_offset = 0, m_length = 5, m_utf16_cache = None\<rparr>
     \<lparr>m_data = 1, m_offset = 0, m_length = 6, m_utf16_cache = None\<rparr>
   \<and> equals [[0x63, 0x61, 0x66, 0xC3, 0xA9], [0x63, 0x61, 0x66, 0x65, 0xCC, 0x81],
              [0x78, 0x63, 0x61, 0x66, 0xC3, 0xA9]]
     \<lparr>m_data = 0, m_offset = 0, m_length = 5, m_utf16_cache = None\<rparr>
     \<lparr>m_data = 2, m_offset = 1, m_length = 5, m_utf16_cache = None\<rparr>"
proof -
  let ?h = "[[0x63, 0x61, 0x66, 0xC3, 0xA9], [0x63, 0x61, 0x66, 0x65, 0xCC, 0x81],
             [0x78, 0x63, 0x61, 0x66, 0xC3, 0xA9]] :: buffers"
  let ?a = "\<lparr>m_data = 0, m_offset = 0, m_length = 5, m_utf16_cache = None\<rparr>"
  let ?b = "\<lparr>m_data = 1, m_offset = 0, m_length = 6, m_utf16_cache = None\<rparr>"
  let ?c = "\<lparr>m_data = 2, m_offset = 1, m_length = 5, m_utf16_cache = None\<rparr>"
  have ba: "in_bounds ?h ?a" and bb: "in_bounds ?h ?b" and bc: "in_bounds ?h ?c"
    by (simp_all add: in_bounds_def)
  have "view_bytes ?h ?a = view_bytes ?h ?c"
    by (simp add: view_bytes_def)
  with equals_iff_same_bytes [OF ba bb] equals_iff_same_bytes [OF ba bc] ba bb bc
  show ?thesis
    by simp
qed

section \<open>Full-range and empty slices\<close>


lemma get_utf16_snd_fields:
  "m_data (snd (get_utf16 h s)) = m_data s \<and> m_offset (snd (get_utf16 h s)) = m_offset s
   \<and> m_length (snd (get_utf16 h s)) = m_length s"
  by (cases "m_utf16_cache s") (simp_all add: get_utf16_def Let_def)

lemma get_utf16_snd_cache:
  "m_utf16_cache (snd (get_utf16 h s)) = Some (fst (get_utf16 h s))"
  by (cases "m_utf16_cache s") (simp_all add: get_utf16_def Let_def)

lemma substring_full:
  "substring h s 0 (length_String h s) = Inr (h, snd (get_utf16 h s))"
  by (simp add: substring_def Let_def length_String_eq_get_utf16)

lemma substring_empty:
  assumes "b \<le> length_String h s"
  shows "substring h s b b =
    (if b = 0 \<and> length_String h s = 0 then Inr (h, snd (get_utf16 h s)) else Inr (String_new h []))"
  using assms by (auto simp: substring_def Let_def length_String_eq_get_utf16)

text \<open>
  C6. For every view \<open>s\<close> that satisfies the class invariants, \<open>substring(0, s.length())\<close>
  succeeds and returns the original view (the same buffer, offset and length, with the
  cache filled), which \<open>equals\<close> the original; and for every \<open>b \<le> s.length()\<close>,
  \<open>substring(b, b)\<close> succeeds and returns an empty view whose \<open>length()\<close> is \<open>0\<close>.
\<close>

theorem substring_full_and_empty:
  assumes "in_bounds h s" and "cache_ok h s"
  shows "(case substring h s 0 (length_String h s) of
            Inl e \<Rightarrow> False
          | Inr (h', r) \<Rightarrow> h' = h \<and> r = snd (get_utf16 h s) \<and> equals h' r s
              \<and> m_data r = m_data s \<and> m_offset r = m_offset s \<and> m_length r = m_length s)
    \<and> (b \<le> length_String h s \<longrightarrow>
         (case substring h s b b of
            Inl e \<Rightarrow> False
          | Inr (h', r) \<Rightarrow> is_empty r \<and> length_String h' r = 0))"
proof (intro conjI impI)
  show "case substring h s 0 (length_String h s) of
            Inl e \<Rightarrow> False
          | Inr (h', r) \<Rightarrow> h' = h \<and> r = snd (get_utf16 h s) \<and> equals h' r s
              \<and> m_data r = m_data s \<and> m_offset r = m_offset s \<and> m_length r = m_length s"
    by (simp add: substring_full get_utf16_snd_fields equals_def shares_data_with_def)
next
  assume b: "b \<le> length_String h s"
  show "case substring h s b b of
            Inl e \<Rightarrow> False
          | Inr (h', r) \<Rightarrow> is_empty r \<and> length_String h' r = 0"
  proof (cases "b = 0 \<and> length_String h s = 0")
    case True
    then have "m_length s = 0"
      using length_String_zero_iff [OF assms] by simp
    moreover have "length_String h (snd (get_utf16 h s)) = length (fst (get_utf16 h s))"
      by (simp add: length_String_def get_utf16_snd_cache)
    then have "length_String h (snd (get_utf16 h s)) = 0"
      using True by (simp add: length_String_eq_get_utf16)
    ultimately show ?thesis
      using True b by (simp add: substring_empty is_empty_def get_utf16_snd_fields)
  next
    case False
    then have sub: "substring h s b b = Inr (String_new h [])"
      using substring_empty [OF b] by auto
    show ?thesis
      unfolding sub by (simp add: String_new_def is_empty_def length_String_def)
  qed
qed

theorem substring_full_and_empty_witness:
  "in_bounds [[0x41, 0xC3, 0xA9]] \<lparr>m_data = 0, m_offset = 0, m_length = 3, m_utf16_cache = None\<rparr>
   \<and> cache_ok [[0x41, 0xC3, 0xA9]] \<lparr>m_data = 0, m_offset = 0, m_length = 3, m_utf16_cache = None\<rparr>
   \<and> length_String [[0x41, 0xC3, 0xA9]]
        \<lparr>m_data = 0, m_offset = 0, m_length = 3, m_utf16_cache = None\<rparr> = 2
   \<and> substring [[0x41, 0xC3, 0xA9]]
        \<lparr>m_data = 0, m_offset = 0, m_length = 3, m_utf16_cache = None\<rparr> 0 2
       = Inr ([[0x41, 0xC3, 0xA9]],
              \<lparr>m_data = 0, m_offset = 0, m_length = 3, m_utf16_cache = Some [0x41, 0xE9]\<rparr>)
   \<and> equals [[0x41, 0xC3, 0xA9]]
        \<lparr>m_data = 0, m_offset = 0, m_length = 3, m_utf16_cache = Some [0x41, 0xE9]\<rparr>
        \<lparr>m_data = 0, m_offset = 0, m_length = 3, m_utf16_cache = None\<rparr>
   \<and> substring [[0x41, 0xC3, 0xA9]]
        \<lparr>m_data = 0, m_offset = 0, m_length = 3, m_utf16_cache = None\<rparr> 1 1
       = Inr ([[0x41, 0xC3, 0xA9], []],
              \<lparr>m_data = 1, m_offset = 0, m_length = 0, m_utf16_cache = None\<rparr>)
   \<and> length_String [[0x41, 0xC3, 0xA9], []]
        \<lparr>m_data = 1, m_offset = 0, m_length = 0, m_utf16_cache = None\<rparr> = 0"
proof -
  let ?h = "[[0x41, 0xC3, 0xA9]] :: buffers"
  let ?s = "\<lparr>m_data = 0, m_offset = 0, m_length = 3, m_utf16_cache = None\<rparr>"
  have bs: "in_bounds ?h ?s"
    by (simp add: in_bounds_def)
  have cs: "cache_ok ?h ?s"
    by (simp add: cache_ok_def)
  have len: "length_String ?h ?s = 2"
    by code_simp
  have full: "substring ?h ?s 0 2
      = Inr (?h, \<lparr>m_data = 0, m_offset = 0, m_length = 3, m_utf16_cache = Some [0x41, 0xE9]\<rparr>)"
    by code_simp
  have empty: "substring ?h ?s 1 1
      = Inr (?h @ [[]], \<lparr>m_data = 1, m_offset = 0, m_length = 0, m_utf16_cache = None\<rparr>)"
    by code_simp
  have "equals ?h \<lparr>m_data = 0, m_offset = 0, m_length = 3, m_utf16_cache = Some [0x41, 0xE9]\<rparr> ?s
      \<and> length_String (?h @ [[]])
            \<lparr>m_data = 1, m_offset = 0, m_length = 0, m_utf16_cache = None\<rparr> = 0"
    using substring_full_and_empty [OF bs cs, of 1] unfolding len full empty by auto
  with bs cs len full empty show ?thesis
    by simp
qed

section \<open>Empty prefix and suffix\<close>

lemma get_utf16_empty:
  assumes "cache_ok h p" and "is_empty p"
  shows "fst (get_utf16 h p) = []"
  using assms
  by (cases "m_utf16_cache p")
     (simp_all add: get_utf16_def cache_ok_def is_empty_def view_bytes_def Let_def decode_utf16_Nil)

text \<open>
  C8 as the code has it. \<open>startsWith\<close> checks the offset first: with an empty prefix it
  returns true for every offset up to \<open>length()\<close> and throws for a larger one; \<open>endsWith\<close>
  with an empty suffix returns true.
\<close>

theorem empty_prefix_suffix_match:
  assumes "cache_ok h p" and "is_empty p"
  shows "(offset \<le> length_String h s \<longrightarrow> startsWith h s p offset = Inr True)
    \<and> (offset > length_String h s \<longrightarrow>
         startsWith h s p offset = Inl (StringIndexOutOfBoundsException ''offset is out of bounds''))
    \<and> endsWith h s p"
  using get_utf16_empty [OF assms]
  by (simp add: startsWith_def endsWith_def Let_def length_String_eq_get_utf16)

theorem empty_prefix_suffix_match_witness:
  "cache_ok [[0x61, 0x62, 0x63], []] \<lparr>m_data = 1, m_offset = 0, m_length = 0, m_utf16_cache = None\<rparr>
   \<and> is_empty \<lparr>m_data = 1, m_offset = 0, m_length = 0, m_utf16_cache = None\<rparr>
   \<and> length_String [[0x61, 0x62, 0x63], []]
        \<lparr>m_data = 0, m_offset = 0, m_length = 3, m_utf16_cache = None\<rparr> = 3
   \<and> startsWith [[0x61, 0x62, 0x63], []]
        \<lparr>m_data = 0, m_offset = 0, m_length = 3, m_utf16_cache = None\<rparr>
        \<lparr>m_data = 1, m_offset = 0, m_length = 0, m_utf16_cache = None\<rparr> 3 = Inr True
   \<and> startsWith [[0x61, 0x62, 0x63], []]
        \<lparr>m_data = 0, m_offset = 0, m_length = 3, m_utf16_cache = None\<rparr>
        \<lparr>m_data = 1, m_offset = 0, m_length = 0, m_utf16_cache = None\<rparr> 5
       = Inl (StringIndexOutOfBoundsException ''offset is out of bounds'')
   \<and> endsWith [[0x61, 0x62, 0x63], []]
        \<lparr>m_data = 0, m_offset = 0, m_length = 3, m_utf16_cache = None\<rparr>
        \<lparr>m_data = 1, m_offset = 0, m_length = 0, m_utf16_cache = None\<rparr>"
proof -
  let ?h = "[[0x61, 0x62, 0x63], []] :: buffers"
  let ?s = "\<lparr>m_data = 0, m_offset = 0, m_length = 3, m_utf16_cache = None\<rparr>"
  let ?p = "\<lparr>m_data = 1, m_offset = 0, m_length = 0, m_utf16_cache = None\<rparr>"
  have cp: "cache_ok ?h ?p"
    by (simp add: cache_ok_def)
  have ep: "is_empty ?p"
    by (simp add: is_empty_def)
  have len: "length_String ?h ?s = 3"
    by code_simp
  from empty_prefix_suffix_match [OF cp ep, of 3 ?s]
    empty_prefix_suffix_match [OF cp ep, of 5 ?s] cp ep len
  show ?thesis
    by simp
qed

text \<open>
  C8 as the claim states it (an empty prefix matches at every offset) fails: on \<open>abc\<close> with
  the empty prefix and offset \<open>4\<close>, \<open>startsWith\<close> throws.
\<close>

theorem empty_prefix_offset_counterexample:
  "is_empty \<lparr>m_data = 1, m_offset = 0, m_length = 0, m_utf16_cache = None\<rparr>
   \<and> startsWith [[0x61, 0x62, 0x63], []]
        \<lparr>m_data = 0, m_offset = 0, m_length = 3, m_utf16_cache = None\<rparr>
        \<lparr>m_data = 1, m_offset = 0, m_length = 0, m_utf16_cache = None\<rparr> 4
       = Inl (StringIndexOutOfBoundsException ''offset is out of bounds'')"
  by code_simp

section \<open>Code point access\<close>



lemma combine_surrogates_unat:
  fixes first second :: char16
  assumes "0xD800 \<le> first" "first \<le> 0xDBFF" "0xDC00 \<le> second" "second \<le> 0xDFFF"
  shows "unat (0x10000 + push_bit 10 (ucast first - 0xD800) + (ucast second - 0xDC00) :: u32)
     = 0x10000 + (unat first - 0xD800) * 2 ^ 10 + (unat second - 0xDC00)"
proof -
  let ?a = "unat first" and ?b = "unat second"
  have a: "0xD800 \<le> ?a" "?a \<le> 0xDBFF" and b: "0xDC00 \<le> ?b" "?b \<le> 0xDFFF"
    using assms by (simp_all add: word_le_nat_alt)
  have "(0x10000 + push_bit 10 (ucast first - 0xD800) + (ucast second - 0xDC00) :: u32)
      = of_nat (0x10000 + (?a - 0xD800) * 2 ^ 10 + (?b - 0xDC00))"
    using a b by (simp add: push_bit_eq_mult of_nat_diff)
  moreover have "0x10000 + (?a - 0xD800) * 2 ^ 10 + (?b - 0xDC00) < 2 ^ 32"
    using a b by simp
  ultimately show ?thesis
    by (simp only: unat_of_nat) simp
qed

text \<open>
  C4. For every view \<open>s\<close> and unit index \<open>i\<close>: \<open>code_point_at\<close> throws the out-of-bounds
  exception exactly when \<open>i\<close> is at least the number of UTF-16 units of \<open>s\<close>. Otherwise, when
  the unit at \<open>i\<close> is a high surrogate and a unit at \<open>i + 1\<close> exists and is a low surrogate,
  it returns \<open>0x10000 + ((high - 0xD800) << 10) + (low - 0xDC00)\<close> (as a number, with no
  wrap-around); in every other case it returns the unit at \<open>i\<close>.
\<close>

theorem code_point_at_value:
  "(let u = fst (get_utf16 h s) in
     (code_point_at h s i = Inl (StringIndexOutOfBoundsException ''Index out of bounds'')
        \<longleftrightarrow> i \<ge> length_String h s)
     \<and> ((\<exists>e. code_point_at h s i = Inl e) \<longleftrightarrow> i \<ge> length_String h s)
     \<and> (i < length_String h s \<longrightarrow>
          (if 0xD800 \<le> u ! i \<and> u ! i \<le> 0xDBFF \<and> i + 1 < length_String h s
              \<and> 0xDC00 \<le> u ! (i + 1) \<and> u ! (i + 1) \<le> 0xDFFF
           then \<exists>cp. code_point_at h s i = Inr cp
                  \<and> unat cp = 0x10000 + (unat (u ! i) - 0xD800) * 2 ^ 10
                                + (unat (u ! (i + 1)) - 0xDC00)
           else code_point_at h s i = Inr (ucast (u ! i)))))"
proof -
  define u where "u = fst (get_utf16 h s)"
  have len: "length_String h s = length u"
    by (simp add: u_def length_String_eq_get_utf16)
  have err: "i \<ge> length u \<Longrightarrow>
      code_point_at h s i = Inl (StringIndexOutOfBoundsException ''Index out of bounds'')"
    by (simp add: code_point_at_def u_def Let_def)
  have pair: "\<exists>cp. code_point_at h s i = Inr cp
        \<and> unat cp = 0x10000 + (unat (u ! i) - 0xD800) * 2 ^ 10 + (unat (u ! (i + 1)) - 0xDC00)"
    if "i < length u" and "0xD800 \<le> u ! i" "u ! i \<le> 0xDBFF" "i + 1 < length u"
      "0xDC00 \<le> u ! (i + 1)" "u ! (i + 1) \<le> 0xDFFF"
  proof -
    have "code_point_at h s i
        = Inr (0x10000 + push_bit 10 (ucast (u ! i) - 0xD800) + (ucast (u ! (i + 1)) - 0xDC00))"
      using that by (simp add: code_point_at_def Let_def flip: u_def)
    then show ?thesis
      using combine_surrogates_unat [OF that(2,3,5,6)] by simp
  qed
  have lone: "code_point_at h s i = Inr (ucast (u ! i))"
    if "i < length u" and "\<not> (0xD800 \<le> u ! i \<and> u ! i \<le> 0xDBFF \<and> i + 1 < length u
      \<and> 0xDC00 \<le> u ! (i + 1) \<and> u ! (i + 1) \<le> 0xDFFF)"
    using that by (auto simp: code_point_at_def Let_def simp flip: u_def)
  have ok: "i < length u \<Longrightarrow> \<exists>cp. code_point_at h s i = Inr cp"
    using pair lone by blast
  show ?thesis
    unfolding Let_def u_def [symmetric] len
  proof (intro conjI impI)
    show "code_point_at h s i = Inl (StringIndexOutOfBoundsException ''Index out of bounds'')
        \<longleftrightarrow> i \<ge> length u"
      using err ok by (cases "i < length u") auto
    show "(\<exists>e. code_point_at h s i = Inl e) \<longleftrightarrow> i \<ge> length u"
      using err ok by (cases "i < length u") auto
    assume "i < length u"
    then show "if 0xD800 \<le> u ! i \<and> u ! i \<le> 0xDBFF \<and> i + 1 < length u
              \<and> 0xDC00 \<le> u ! (i + 1) \<and> u ! (i + 1) \<le> 0xDFFF
           then \<exists>cp. code_point_at h s i = Inr cp
                  \<and> unat cp = 0x10000 + (unat (u ! i) - 0xD800) * 2 ^ 10
                                + (unat (u ! (i + 1)) - 0xDC00)
           else code_point_at h s i = Inr (ucast (u ! i))"
      using pair lone by (simp del: One_nat_def)
  qed
qed

theorem code_point_at_value_witness:
  "length_String [[0x41, 0xF0, 0x9D, 0x92, 0x9C, 0x42]]
     \<lparr>m_data = 0, m_offset = 0, m_length = 6, m_utf16_cache = None\<rparr> = 4
   \<and> code_point_at [[0x41, 0xF0, 0x9D, 0x92, 0x9C, 0x42]]
        \<lparr>m_data = 0, m_offset = 0, m_length = 6, m_utf16_cache = None\<rparr> 4
       = Inl (StringIndexOutOfBoundsException ''Index out of bounds'')
   \<and> code_point_at [[0x41, 0xF0, 0x9D, 0x92, 0x9C, 0x42]]
        \<lparr>m_data = 0, m_offset = 0, m_length = 6, m_utf16_cache = None\<rparr> 1 = Inr 0x1D49C
   \<and> code_point_at [[0x41, 0xF0, 0x9D, 0x92, 0x9C, 0x42]]
        \<lparr>m_data = 0, m_offset = 0, m_length = 6, m_utf16_cache = None\<rparr> 2 = Inr 0xDC9C"
proof -
  let ?h = "[[0x41, 0xF0, 0x9D, 0x92, 0x9C, 0x42]] :: buffers"
  let ?s = "\<lparr>m_data = 0, m_offset = 0, m_length = 6, m_utf16_cache = None\<rparr>"
  have len: "length_String ?h ?s = 4"
    by code_simp
  have u: "fst (get_utf16 ?h ?s) = [0x41, 0xD835, 0xDC9C, 0x42]"
    by code_simp
  have out: "code_point_at ?h ?s 4 = Inl (StringIndexOutOfBoundsException ''Index out of bounds'')"
    using code_point_at_value [of ?h ?s 4] len by (simp add: Let_def)
  have low: "code_point_at ?h ?s 2 = Inr 0xDC9C"
    using code_point_at_value [of ?h ?s 2] len u by (simp add: Let_def)
  have "code_point_at ?h ?s 1 = Inr 0x1D49C"
    by code_simp
  with len out low show ?thesis
    by simp
qed

section \<open>Counting code points\<close>

text \<open>
  For the proofs: position \<open>j\<close> of a unit sequence holds a high surrogate that the next
  position follows with a low surrogate (the test of the loop of \<open>code_point_count\<close>).
\<close>

definition pair_at :: "char16 list \<Rightarrow> nat \<Rightarrow> bool" where
  "pair_at u j = (0xD800 \<le> u ! j \<and> u ! j \<le> 0xDBFF \<and> 0xDC00 \<le> u ! (j + 1) \<and> u ! (j + 1) \<le> 0xDFFF)"

lemma code_point_count_loop_unfold:
  "i < n \<Longrightarrow> code_point_count_loop u n i c =
     code_point_count_loop u n (if pair_at u i \<and> i + 1 < n then i + 2 else i + 1) (c + 1)"
  by (subst code_point_count_loop.simps) (auto simp: Let_def pair_at_def)

lemma code_point_count_loop_done:
  "\<not> i < n \<Longrightarrow> code_point_count_loop u n i c = c"
  by (subst code_point_count_loop.simps) simp

lemma code_point_count_loop_bound:
  "code_point_count_loop u n i c \<le> c + (n - i)
   \<and> (code_point_count_loop u n i c = c + (n - i)
        \<longleftrightarrow> \<not> (\<exists>j. i \<le> j \<and> j + 1 < n \<and> pair_at u j))"
proof (induction "n - i" arbitrary: i c rule: less_induct)
  case less
  show ?case
  proof (cases "i < n")
    case False
    then show ?thesis
      by (simp add: code_point_count_loop_done)
  next
    case True
    show ?thesis
    proof (cases "pair_at u i \<and> i + 1 < n")
      case skip: True
      have "n - (i + 2) < n - i"
        using True by simp
      from less [OF this, of "c + 1"]
      have "code_point_count_loop u n (i + 2) (c + 1) \<le> c + 1 + (n - (i + 2))"
        by (rule conjunct1)
      moreover have "code_point_count_loop u n i c = code_point_count_loop u n (i + 2) (c + 1)"
        using skip code_point_count_loop_unfold [OF True, of u c] by simp
      moreover have "i + 2 \<le> n"
        using skip by simp
      then have "c + 1 + (n - (i + 2)) < c + (n - i)"
        by arith
      ultimately have "code_point_count_loop u n i c < c + (n - i)"
        by (simp only:)
      moreover have "\<exists>j. i \<le> j \<and> j + 1 < n \<and> pair_at u j"
        using skip by auto
      ultimately show ?thesis
        by simp
    next
      case noskip: False
      have "n - (i + 1) < n - i"
        using True by simp
      from less [OF this, of "c + 1"]
      have ih: "code_point_count_loop u n (i + 1) (c + 1) \<le> c + 1 + (n - (i + 1))"
        "code_point_count_loop u n (i + 1) (c + 1) = c + 1 + (n - (i + 1))
          \<longleftrightarrow> \<not> (\<exists>j. i + 1 \<le> j \<and> j + 1 < n \<and> pair_at u j)"
        by simp_all
      have step: "code_point_count_loop u n i c = code_point_count_loop u n (i + 1) (c + 1)"
        using noskip code_point_count_loop_unfold [OF True, of u c] by auto
      have "i \<le> j \<longleftrightarrow> j = i \<or> i + 1 \<le> j" for j
        by auto
      then have ex: "(\<exists>j. i \<le> j \<and> j + 1 < n \<and> pair_at u j)
          \<longleftrightarrow> (\<exists>j. i + 1 \<le> j \<and> j + 1 < n \<and> pair_at u j)"
        using noskip by auto
      have eq: "c + 1 + (n - (i + 1)) = c + (n - i)"
        using True by simp
      show ?thesis
        unfolding step ex using ih unfolding eq by blast
    qed
  qed
qed

text \<open>
  C7. For every view \<open>s\<close>, \<open>code_point_count(0, s.length())\<close> succeeds with a count that is at
  most \<open>s.length()\<close>, and the count equals \<open>s.length()\<close> exactly when the decoded form of \<open>s\<close>
  has no position where a high surrogate is followed at once by a low surrogate.
\<close>

theorem code_point_count_bound:
  "(let u = fst (get_utf16 h s) in
     \<exists>n. code_point_count h s 0 (length_String h s) = Inr n \<and> n \<le> length_String h s
       \<and> (n = length_String h s \<longleftrightarrow>
            \<not> (\<exists>j. j + 1 < length u \<and> 0xD800 \<le> u ! j \<and> u ! j \<le> 0xDBFF
                      \<and> 0xDC00 \<le> u ! (j + 1) \<and> u ! (j + 1) \<le> 0xDFFF)))"
proof -
  define u where "u = fst (get_utf16 h s)"
  have len: "length_String h s = length u"
    by (simp add: u_def length_String_eq_get_utf16)
  have "code_point_count h s 0 (length u) = Inr (code_point_count_loop u (length u) 0 0)"
    by (simp add: code_point_count_def Let_def flip: u_def)
  moreover have "code_point_count_loop u (length u) 0 0 \<le> length u"
    using code_point_count_loop_bound [of u "length u" 0 0] by simp
  moreover have "code_point_count_loop u (length u) 0 0 = length u
      \<longleftrightarrow> \<not> (\<exists>j. j + 1 < length u \<and> 0xD800 \<le> u ! j \<and> u ! j \<le> 0xDBFF
                      \<and> 0xDC00 \<le> u ! (j + 1) \<and> u ! (j + 1) \<le> 0xDFFF)"
    using code_point_count_loop_bound [of u "length u" 0 0] by (simp add: pair_at_def)
  ultimately show ?thesis
    unfolding Let_def u_def [symmetric] len by blast
qed

theorem code_point_count_bound_witness:
  "length_String [[0x41, 0xF0, 0x9D, 0x92, 0x9C, 0x42]]
     \<lparr>m_data = 0, m_offset = 0, m_length = 6, m_utf16_cache = None\<rparr> = 4
   \<and> code_point_count [[0x41, 0xF0, 0x9D, 0x92, 0x9C, 0x42]]
        \<lparr>m_data = 0, m_offset = 0, m_length = 6, m_utf16_cache = None\<rparr> 0 4 = Inr 3
   \<and> length_String [[0x41, 0xC3, 0xA9]]
        \<lparr>m_data = 0, m_offset = 0, m_length = 3, m_utf16_cache = None\<rparr> = 2
   \<and> code_point_count [[0x41, 0xC3, 0xA9]]
        \<lparr>m_data = 0, m_offset = 0, m_length = 3, m_utf16_cache = None\<rparr> 0 2 = Inr 2"
proof -
  let ?h = "[[0x41, 0xF0, 0x9D, 0x92, 0x9C, 0x42]] :: buffers"
  let ?s = "\<lparr>m_data = 0, m_offset = 0, m_length = 6, m_utf16_cache = None\<rparr>"
  let ?k = "[[0x41, 0xC3, 0xA9]] :: buffers"
  let ?t = "\<lparr>m_data = 0, m_offset = 0, m_length = 3, m_utf16_cache = None\<rparr>"
  have len: "length_String ?h ?s = 4" and len': "length_String ?k ?t = 2"
    by code_simp+
  have cnt: "code_point_count ?h ?s 0 4 = Inr 3" and cnt': "code_point_count ?k ?t 0 2 = Inr 2"
    by code_simp+
  from code_point_count_bound [of ?h ?s] code_point_count_bound [of ?k ?t] len len' cnt cnt'
  show ?thesis
    by (simp add: Let_def)
qed

section \<open>Byte classes and assembled code points as numbers\<close>

text \<open>
  The bit tests and the shifts of the decoder, read as arithmetic on the byte values: a mask
  test is a range of values, and the assembled code point is a sum of products that never
  reaches \<open>2 ^ 32\<close>.
\<close>

lemma or_push_bit_nat:
  fixes x y :: nat
  assumes "y < 2 ^ k"
  shows "push_bit k x OR y = x * 2 ^ k + y"
proof -
  have y: "take_bit k y = y"
    using assms by (simp add: take_bit_nat_eq_self)
  have "push_bit k x AND take_bit k y = 0"
    by (simp add: bit_eq_iff bit_simps)
  then have "push_bit k x + take_bit k y = push_bit k x OR take_bit k y"
    by (rule disjunctive_add_eq_or)
  then show ?thesis
    by (simp add: y push_bit_eq_mult)
qed

lemma and_mask_nat:
  "(n :: nat) AND 63 = n mod 64" "(n :: nat) AND 31 = n mod 32"
  "(n :: nat) AND 15 = n mod 16" "(n :: nat) AND 7 = n mod 8" "(n :: nat) AND 1023 = n mod 1024"
proof -
  have m: "(63 :: nat) = mask 6" "(31 :: nat) = mask 5" "(15 :: nat) = mask 4" "(7 :: nat) = mask 3"
    "(1023 :: nat) = mask 10"
    by (simp_all add: mask_eq_exp_minus_1)
  show "(n :: nat) AND 63 = n mod 64" "(n :: nat) AND 31 = n mod 32"
  "(n :: nat) AND 15 = n mod 16" "(n :: nat) AND 7 = n mod 8" "(n :: nat) AND 1023 = n mod 1024"
    unfolding m by (simp_all add: take_bit_eq_mask [symmetric] take_bit_eq_mod)
qed

lemma codepoint2_of_nat:
  fixes b0 b1 :: u8
  shows "(push_bit 6 (ucast b0 AND 0x1F) OR (ucast b1 AND 0x3F) :: u32)
    = of_nat ((unat b0 mod 32) * 64 + unat b1 mod 64)"
proof -
  have "(of_nat ((unat b0 mod 32) * 64 + unat b1 mod 64) :: u32)
      = of_nat (push_bit 6 (unat b0 AND 31) OR (unat b1 AND 63))"
    using or_push_bit_nat [of "unat b1 mod 64" 6 "unat b0 mod 32"]
    by (simp only: and_mask_nat) simp
  also have "\<dots> = push_bit 6 (ucast b0 AND 0x1F) OR (ucast b1 AND 0x3F)"
    by (simp only: of_nat_or_eq of_nat_and_eq of_nat_push_bit of_nat_unat of_nat_numeral)
  finally show ?thesis
    by simp
qed

lemma codepoint3_of_nat:
  fixes b0 b1 b2 :: u8
  shows "((push_bit 12 (ucast b0 AND 0x0F) OR push_bit 6 (ucast b1 AND 0x3F))
          OR (ucast b2 AND 0x3F) :: u32)
    = of_nat ((unat b0 mod 16) * 4096 + (unat b1 mod 64) * 64 + unat b2 mod 64)"
proof -
  let ?lo = "(unat b1 mod 64) * 64 + unat b2 mod 64"
  have lo: "push_bit 6 (unat b1 AND 63) OR (unat b2 AND 63) = ?lo"
    using or_push_bit_nat [of "unat b2 mod 64" 6 "unat b1 mod 64"]
    by (simp only: and_mask_nat) simp
  have "?lo < 2 ^ 12"
    using mod_less_divisor [of 64 "unat b1"] mod_less_divisor [of 64 "unat b2"] by simp
  then have "push_bit 12 (unat b0 AND 15) OR ?lo = (unat b0 mod 16) * 4096 + ?lo"
    using or_push_bit_nat [of ?lo 12 "unat b0 mod 16"]
    by (simp only: and_mask_nat) simp
  then have "(of_nat ((unat b0 mod 16) * 4096 + (unat b1 mod 64) * 64 + unat b2 mod 64) :: u32)
      = of_nat (push_bit 12 (unat b0 AND 15)
                OR (push_bit 6 (unat b1 AND 63) OR (unat b2 AND 63)))"
    by (simp only: lo add.assoc)
  also have "\<dots> = push_bit 12 (ucast b0 AND 0x0F)
      OR (push_bit 6 (ucast b1 AND 0x3F) OR (ucast b2 AND 0x3F))"
    by (simp only: of_nat_or_eq of_nat_and_eq of_nat_push_bit of_nat_unat of_nat_numeral)
  finally show ?thesis
    by (simp only: or.assoc)
qed

lemma codepoint4_of_nat:
  fixes b0 b1 b2 b3 :: u8
  shows "(((push_bit 18 (ucast b0 AND 0x07) OR push_bit 12 (ucast b1 AND 0x3F))
          OR push_bit 6 (ucast b2 AND 0x3F)) OR (ucast b3 AND 0x3F) :: u32)
    = of_nat ((unat b0 mod 8) * 262144 + (unat b1 mod 64) * 4096
              + (unat b2 mod 64) * 64 + unat b3 mod 64)"
proof -
  let ?lo = "(unat b2 mod 64) * 64 + unat b3 mod 64"
  let ?mid = "(unat b1 mod 64) * 4096 + ?lo"
  have lo: "push_bit 6 (unat b2 AND 63) OR (unat b3 AND 63) = ?lo"
    using or_push_bit_nat [of "unat b3 mod 64" 6 "unat b2 mod 64"]
    by (simp only: and_mask_nat) simp
  have lo_less: "?lo < 2 ^ 12"
    using mod_less_divisor [of 64 "unat b2"] mod_less_divisor [of 64 "unat b3"] by simp
  then have mid: "push_bit 12 (unat b1 AND 63) OR ?lo = ?mid"
    using or_push_bit_nat [of ?lo 12 "unat b1 mod 64"]
    by (simp only: and_mask_nat) simp
  have "?mid < 2 ^ 18"
    using lo_less mod_less_divisor [of 64 "unat b1"] by simp
  then have "push_bit 18 (unat b0 AND 7) OR ?mid = (unat b0 mod 8) * 262144 + ?mid"
    using or_push_bit_nat [of ?mid 18 "unat b0 mod 8"]
    by (simp only: and_mask_nat) simp
  then have "(of_nat ((unat b0 mod 8) * 262144 + (unat b1 mod 64) * 4096
              + (unat b2 mod 64) * 64 + unat b3 mod 64) :: u32)
      = of_nat (push_bit 18 (unat b0 AND 7)
                OR (push_bit 12 (unat b1 AND 63)
                    OR (push_bit 6 (unat b2 AND 63) OR (unat b3 AND 63))))"
    by (simp only: lo mid add.assoc)
  also have "\<dots> = push_bit 18 (ucast b0 AND 0x07)
      OR (push_bit 12 (ucast b1 AND 0x3F)
          OR (push_bit 6 (ucast b2 AND 0x3F) OR (ucast b3 AND 0x3F)))"
    by (simp only: of_nat_or_eq of_nat_and_eq of_nat_push_bit of_nat_unat of_nat_numeral)
  finally show ?thesis
    by (simp only: or.assoc)
qed


lemma byte_patterns_upto:
  "list_all (\<lambda>n. ((of_nat n :: u8) AND 0xE0 = 0xC0) = (192 \<le> n \<and> n \<le> 223)
      \<and> ((of_nat n :: u8) AND 0xF0 = 0xE0) = (224 \<le> n \<and> n \<le> 239)
      \<and> ((of_nat n :: u8) AND 0xF8 = 0xF0) = (240 \<le> n \<and> n \<le> 247)
      \<and> ((of_nat n :: u8) AND 0xC0 = 0x80) = (128 \<le> n \<and> n \<le> 191)) [0..<256]"
  by code_simp

lemma byte_patterns:
  fixes b :: u8
  shows "(b AND 0xE0 = 0xC0) = (192 \<le> unat b \<and> unat b \<le> 223)"
    and "(b AND 0xF0 = 0xE0) = (224 \<le> unat b \<and> unat b \<le> 239)"
    and "(b AND 0xF8 = 0xF0) = (240 \<le> unat b \<and> unat b \<le> 247)"
    and "(b AND 0xC0 = 0x80) = (128 \<le> unat b \<and> unat b \<le> 191)"
    and "(b < 0x80) = (unat b < 128)"
proof -
  have "unat b < 256"
    using unsigned_less [of b, where 'a = nat] by simp
  then have "unat b \<in> set [0..<256]"
    by simp
  with byte_patterns_upto
  have "((of_nat (unat b) :: u8) AND 0xE0 = 0xC0) = (192 \<le> unat b \<and> unat b \<le> 223)
      \<and> ((of_nat (unat b) :: u8) AND 0xF0 = 0xE0) = (224 \<le> unat b \<and> unat b \<le> 239)
      \<and> ((of_nat (unat b) :: u8) AND 0xF8 = 0xF0) = (240 \<le> unat b \<and> unat b \<le> 247)
      \<and> ((of_nat (unat b) :: u8) AND 0xC0 = 0x80) = (128 \<le> unat b \<and> unat b \<le> 191)"
    unfolding list_all_iff by blast
  then show "(b AND 0xE0 = 0xC0) = (192 \<le> unat b \<and> unat b \<le> 223)"
    and "(b AND 0xF0 = 0xE0) = (224 \<le> unat b \<and> unat b \<le> 239)"
    and "(b AND 0xF8 = 0xF0) = (240 \<le> unat b \<and> unat b \<le> 247)"
    and "(b AND 0xC0 = 0x80) = (128 \<le> unat b \<and> unat b \<le> 191)"
    by simp_all
  show "(b < 0x80) = (unat b < 128)"
    by (simp add: word_less_nat_alt)
qed

lemma unat_of_nat_u32: "N < 2 ^ 32 \<Longrightarrow> unat (of_nat N :: u32) = N"
  by (simp add: unat_of_nat)

lemma unat_of_nat_char16: "N < 2 ^ 16 \<Longrightarrow> unat (of_nat N :: char16) = N"
  by (simp add: unat_of_nat)

lemma ucast_of_nat_u32: "N < 2 ^ 32 \<Longrightarrow> (ucast (of_nat N :: u32) :: char16) = of_nat N"
  by (simp add: unsigned_of_nat take_bit_nat_eq_self)



lemma mod_lead2: "192 \<le> a \<Longrightarrow> a \<le> 223 \<Longrightarrow> a mod 32 = a - (192 :: nat)"
  by (rule mod_nat_eqI) simp_all
lemma mod_lead3: "224 \<le> a \<Longrightarrow> a \<le> 239 \<Longrightarrow> a mod 16 = a - (224 :: nat)"
  by (rule mod_nat_eqI) simp_all
lemma mod_lead4: "240 \<le> a \<Longrightarrow> a \<le> 247 \<Longrightarrow> a mod 8 = a - (240 :: nat)"
  by (rule mod_nat_eqI) simp_all
lemma mod_cont: "128 \<le> a \<Longrightarrow> a \<le> 191 \<Longrightarrow> a mod 64 = a - (128 :: nat)"
  by (rule mod_nat_eqI) simp_all

lemma step_ascii:
  assumes "unat (bs ! i) < 128"
  shows "get_utf16_step bs i = (i + 1, [ucast (bs ! i)])"
proof -
  have "bs ! i < 0x80"
    using assms byte_patterns(5) [of "bs ! i"] by blast
  then show ?thesis
    by (simp add: get_utf16_step_def)
qed

lemma step_other:
  assumes "128 \<le> unat (bs ! i) \<and> unat (bs ! i) \<le> 191 \<or> 248 \<le> unat (bs ! i)"
  shows "get_utf16_step bs i = (i + 1, [0xFFFD])"
proof -
  have "\<not> bs ! i < 0x80" "bs ! i AND 0xE0 \<noteq> 0xC0" "bs ! i AND 0xF0 \<noteq> 0xE0"
    "bs ! i AND 0xF8 \<noteq> 0xF0"
    using assms byte_patterns [of "bs ! i"] by linarith+
  then show ?thesis
    by (simp add: get_utf16_step_def)
qed


lemma step_lead2:
  assumes "192 \<le> unat (bs ! i)" "unat (bs ! i) \<le> 223"
  shows "get_utf16_step bs i =
    (if i + 1 < length bs \<and> 128 \<le> unat (bs ! (i + 1)) \<and> unat (bs ! (i + 1)) \<le> 191
     then (let V = (unat (bs ! i) - 192) * 64 + (unat (bs ! (i + 1)) - 128)
           in if V < 128 then (i + 2, [0xFFFD, 0xFFFD]) else (i + 2, [of_nat V]))
     else (i + 1, [0xFFFD]))"
proof -
  have lead: "\<not> bs ! i < 0x80" "bs ! i AND 0xE0 = 0xC0"
    using assms byte_patterns [of "bs ! i"] by linarith+
  show ?thesis
  proof (cases "i + 1 < length bs \<and> 128 \<le> unat (bs ! (i + 1)) \<and> unat (bs ! (i + 1)) \<le> 191")
    case False
    then have "length bs \<le> i + 1 \<or> bs ! (i + 1) AND 0xC0 \<noteq> 0x80"
      using byte_patterns(4) [of "bs ! (i + 1)"] by linarith
    then have "get_utf16_step bs i = (i + 1, [0xFFFD])"
      using lead by (simp add: get_utf16_step_def)
    then show ?thesis
      using False by auto
  next
    case True
    then have cont: "\<not> length bs \<le> i + 1" "bs ! (i + 1) AND 0xC0 = 0x80"
      using byte_patterns(4) [of "bs ! (i + 1)"] by linarith+
    define V where "V = (unat (bs ! i) - 192) * 64 + (unat (bs ! (i + 1)) - 128)"
    have "(unat (bs ! i) mod 32) * 64 + unat (bs ! (i + 1)) mod 64 = V"
      using assms True by (simp add: V_def mod_lead2 mod_cont)
    then have cp: "(push_bit 6 (ucast (bs ! i) AND 0x1F) OR (ucast (bs ! (i + 1)) AND 0x3F) :: u32)
        = of_nat V"
      by (simp only: codepoint2_of_nat)
    have "V < 2048"
      using assms True unfolding V_def by linarith
    then have V: "V < 2 ^ 32"
      by simp
    have lt: "(of_nat V :: u32) < 0x80 \<longleftrightarrow> V < 128"
      by (simp add: word_less_nat_alt unat_of_nat_u32 [OF V])
    have "get_utf16_step bs i
        = (if V < 128 then (i + 2, [0xFFFD, 0xFFFD]) else (i + 2, [of_nat V]))"
      unfolding get_utf16_step_def Let_def cp lt ucast_of_nat_u32 [OF V]
      using lead cont by simp
    then show ?thesis
      using True by (simp add: V_def Let_def)
  qed
qed


lemma of_nat_u32_compare:
  assumes "V < 2 ^ 32"
  shows "(of_nat V :: u32) < 0x800 \<longleftrightarrow> V < 2048"
    and "(0xD800 :: u32) \<le> of_nat V \<longleftrightarrow> 55296 \<le> V"
    and "(of_nat V :: u32) \<le> 0xDFFF \<longleftrightarrow> V \<le> 57343"
    and "(of_nat V :: u32) < 0x10000 \<longleftrightarrow> V < 65536"
    and "(0x10FFFF :: u32) < of_nat V \<longleftrightarrow> 1114111 < V"
  by (simp_all add: word_less_nat_alt word_le_nat_alt unat_of_nat_u32 [OF assms])

lemma step_lead3:
  assumes "224 \<le> unat (bs ! i)" "unat (bs ! i) \<le> 239"
  shows "get_utf16_step bs i =
    (if i + 2 < length bs \<and> 128 \<le> unat (bs ! (i + 1)) \<and> unat (bs ! (i + 1)) \<le> 191
         \<and> 128 \<le> unat (bs ! (i + 2)) \<and> unat (bs ! (i + 2)) \<le> 191
     then (let V = (unat (bs ! i) - 224) * 4096 + (unat (bs ! (i + 1)) - 128) * 64
                   + (unat (bs ! (i + 2)) - 128)
           in if V < 2048 \<or> (55296 \<le> V \<and> V \<le> 57343)
              then (i + 3, [0xFFFD, 0xFFFD, 0xFFFD]) else (i + 3, [of_nat V]))
     else (i + 1, [0xFFFD]))"
proof -
  have lead: "\<not> bs ! i < 0x80" "bs ! i AND 0xE0 \<noteq> 0xC0" "bs ! i AND 0xF0 = 0xE0"
    using assms byte_patterns [of "bs ! i"] by linarith+
  show ?thesis
  proof (cases "i + 2 < length bs \<and> 128 \<le> unat (bs ! (i + 1)) \<and> unat (bs ! (i + 1)) \<le> 191
         \<and> 128 \<le> unat (bs ! (i + 2)) \<and> unat (bs ! (i + 2)) \<le> 191")
    case False
    then have "length bs \<le> i + 2 \<or> bs ! (i + 1) AND 0xC0 \<noteq> 0x80
        \<or> bs ! (i + 2) AND 0xC0 \<noteq> 0x80"
      using byte_patterns(4) [of "bs ! (i + 1)"] byte_patterns(4) [of "bs ! (i + 2)"]
      by linarith
    then have "get_utf16_step bs i = (i + 1, [0xFFFD])"
      using lead by (simp add: get_utf16_step_def)
    then show ?thesis
      using False by auto
  next
    case True
    then have cont: "\<not> length bs \<le> i + 2" "bs ! (i + 1) AND 0xC0 = 0x80"
      "bs ! (i + 2) AND 0xC0 = 0x80"
      using byte_patterns(4) [of "bs ! (i + 1)"] byte_patterns(4) [of "bs ! (i + 2)"]
      by linarith+
    define V where "V = (unat (bs ! i) - 224) * 4096 + (unat (bs ! (i + 1)) - 128) * 64
                   + (unat (bs ! (i + 2)) - 128)"
    have "(unat (bs ! i) mod 16) * 4096 + (unat (bs ! (i + 1)) mod 64) * 64
        + unat (bs ! (i + 2)) mod 64 = V"
      using assms True by (simp add: V_def mod_lead3 mod_cont)
    then have cp: "((push_bit 12 (ucast (bs ! i) AND 0x0F)
          OR push_bit 6 (ucast (bs ! (i + 1)) AND 0x3F))
          OR (ucast (bs ! (i + 2)) AND 0x3F) :: u32) = of_nat V"
      by (simp only: codepoint3_of_nat)
    have "V < 65536"
      using assms True unfolding V_def by linarith
    then have V: "V < 2 ^ 32"
      by simp
    have "get_utf16_step bs i
        = (if V < 2048 \<or> (55296 \<le> V \<and> V \<le> 57343)
           then (i + 3, [0xFFFD, 0xFFFD, 0xFFFD]) else (i + 3, [of_nat V]))"
      unfolding get_utf16_step_def Let_def cp of_nat_u32_compare [OF V] ucast_of_nat_u32 [OF V]
      using lead cont by simp
    then show ?thesis
      using True by (simp add: V_def Let_def)
  qed
qed


lemma drop_bit_of_nat_u32:
  assumes "M < 2 ^ 32"
  shows "drop_bit 10 (of_nat M :: u32) = of_nat (M div 1024)"
proof -
  have "M div 1024 < 2 ^ 32"
    using assms by (simp add: less_mult_imp_div_less)
  then have "unat (of_nat (M div 1024) :: u32) = M div 1024"
    by (rule unat_of_nat_u32)
  moreover have "unat (drop_bit 10 (of_nat M :: u32)) = drop_bit 10 (unat (of_nat M :: u32))"
    by (rule unat_drop_bit_eq)
  then have "unat (drop_bit 10 (of_nat M :: u32)) = M div 1024"
    by (simp only: unat_of_nat_u32 [OF assms] drop_bit_eq_div) simp
  ultimately show ?thesis
    by (simp only: word_unat_eq_iff)
qed

lemma and_1023_of_nat_u32: "(of_nat M :: u32) AND 0x3FF = of_nat (M mod 1024)"
proof -
  have "(of_nat (M mod 1024) :: u32) = of_nat (M AND 1023)"
    by (simp only: and_mask_nat)
  also have "\<dots> = of_nat M AND 0x3FF"
    by (simp only: of_nat_and_eq of_nat_numeral)
  finally show ?thesis
    by simp
qed

lemma surrogate_pair_of_nat:
  assumes "65536 \<le> V" "V \<le> 1114111"
  shows "(ucast (0xD800 + drop_bit 10 ((of_nat V :: u32) - 0x10000)) :: char16)
      = of_nat (55296 + (V - 65536) div 1024)"
    and "(ucast (0xDC00 + (((of_nat V :: u32) - 0x10000) AND 0x3FF)) :: char16)
      = of_nat (56320 + (V - 65536) mod 1024)"
proof -
  define M where "M = V - 65536"
  have M: "M < 2 ^ 32"
    using assms by (simp add: M_def)
  have sub: "(of_nat V :: u32) - 0x10000 = of_nat M"
    using assms(1) by (simp add: M_def of_nat_diff)
  have hi: "55296 + M div 1024 < 2 ^ 32" and lo: "56320 + M mod 1024 < 2 ^ 32"
    using assms by (simp_all add: M_def)
  have e1: "(0xD800 + drop_bit 10 (of_nat M :: u32)) = of_nat (55296 + M div 1024)"
    by (simp only: drop_bit_of_nat_u32 [OF M] of_nat_add of_nat_numeral)
  show "(ucast (0xD800 + drop_bit 10 ((of_nat V :: u32) - 0x10000)) :: char16)
      = of_nat (55296 + (V - 65536) div 1024)"
    unfolding M_def [symmetric] sub e1 by (rule ucast_of_nat_u32 [OF hi])
  have e2: "(0xDC00 + ((of_nat M :: u32) AND 0x3FF)) = of_nat (56320 + M mod 1024)"
    by (simp only: and_1023_of_nat_u32 of_nat_add of_nat_numeral)
  show "(ucast (0xDC00 + (((of_nat V :: u32) - 0x10000) AND 0x3FF)) :: char16)
      = of_nat (56320 + (V - 65536) mod 1024)"
    unfolding M_def [symmetric] sub e2 by (rule ucast_of_nat_u32 [OF lo])
qed


lemma step_lead4:
  assumes "240 \<le> unat (bs ! i)" "unat (bs ! i) \<le> 247"
  shows "get_utf16_step bs i =
    (if i + 3 < length bs \<and> 128 \<le> unat (bs ! (i + 1)) \<and> unat (bs ! (i + 1)) \<le> 191
         \<and> 128 \<le> unat (bs ! (i + 2)) \<and> unat (bs ! (i + 2)) \<le> 191
         \<and> 128 \<le> unat (bs ! (i + 3)) \<and> unat (bs ! (i + 3)) \<le> 191
     then (let V = (unat (bs ! i) - 240) * 262144 + (unat (bs ! (i + 1)) - 128) * 4096
                   + (unat (bs ! (i + 2)) - 128) * 64 + (unat (bs ! (i + 3)) - 128)
           in if V < 65536 \<or> 1114111 < V
              then (i + 4, [0xFFFD, 0xFFFD, 0xFFFD, 0xFFFD])
              else (i + 4, [of_nat (55296 + (V - 65536) div 1024),
                            of_nat (56320 + (V - 65536) mod 1024)]))
     else (i + 1, [0xFFFD]))"
proof -
  have lead: "\<not> bs ! i < 0x80" "bs ! i AND 0xE0 \<noteq> 0xC0" "bs ! i AND 0xF0 \<noteq> 0xE0"
    "bs ! i AND 0xF8 = 0xF0"
    using assms byte_patterns [of "bs ! i"] by linarith+
  show ?thesis
  proof (cases "i + 3 < length bs \<and> 128 \<le> unat (bs ! (i + 1)) \<and> unat (bs ! (i + 1)) \<le> 191
         \<and> 128 \<le> unat (bs ! (i + 2)) \<and> unat (bs ! (i + 2)) \<le> 191
         \<and> 128 \<le> unat (bs ! (i + 3)) \<and> unat (bs ! (i + 3)) \<le> 191")
    case False
    then have "length bs \<le> i + 3 \<or> bs ! (i + 1) AND 0xC0 \<noteq> 0x80
        \<or> bs ! (i + 2) AND 0xC0 \<noteq> 0x80 \<or> bs ! (i + 3) AND 0xC0 \<noteq> 0x80"
      using byte_patterns(4) [of "bs ! (i + 1)"] byte_patterns(4) [of "bs ! (i + 2)"]
        byte_patterns(4) [of "bs ! (i + 3)"]
      by linarith
    then have "get_utf16_step bs i = (i + 1, [0xFFFD])"
      using lead by (simp add: get_utf16_step_def)
    then show ?thesis
      using False by auto
  next
    case True
    then have cont: "\<not> length bs \<le> i + 3" "bs ! (i + 1) AND 0xC0 = 0x80"
      "bs ! (i + 2) AND 0xC0 = 0x80" "bs ! (i + 3) AND 0xC0 = 0x80"
      using byte_patterns(4) [of "bs ! (i + 1)"] byte_patterns(4) [of "bs ! (i + 2)"]
        byte_patterns(4) [of "bs ! (i + 3)"]
      by linarith+
    define V where "V = (unat (bs ! i) - 240) * 262144 + (unat (bs ! (i + 1)) - 128) * 4096
                   + (unat (bs ! (i + 2)) - 128) * 64 + (unat (bs ! (i + 3)) - 128)"
    have "(unat (bs ! i) mod 8) * 262144 + (unat (bs ! (i + 1)) mod 64) * 4096
        + (unat (bs ! (i + 2)) mod 64) * 64 + unat (bs ! (i + 3)) mod 64 = V"
      using assms True by (simp add: V_def mod_lead4 mod_cont)
    then have cp: "(((push_bit 18 (ucast (bs ! i) AND 0x07)
          OR push_bit 12 (ucast (bs ! (i + 1)) AND 0x3F))
          OR push_bit 6 (ucast (bs ! (i + 2)) AND 0x3F))
          OR (ucast (bs ! (i + 3)) AND 0x3F) :: u32) = of_nat V"
      by (simp only: codepoint4_of_nat)
    have "V < 2097152"
      using assms True unfolding V_def by linarith
    then have V: "V < 2 ^ 32"
      by simp
    have raw: "get_utf16_step bs i
        = (if V < 65536 \<or> 1114111 < V
           then (i + 4, [0xFFFD, 0xFFFD, 0xFFFD, 0xFFFD])
           else (i + 4, [ucast (0xD800 + drop_bit 10 ((of_nat V :: u32) - 0x10000)),
                         ucast (0xDC00 + (((of_nat V :: u32) - 0x10000) AND 0x3FF))]))"
      unfolding get_utf16_step_def Let_def cp of_nat_u32_compare [OF V]
      using lead cont by (simp only: if_True if_False simp_thms)
    have "get_utf16_step bs i
        = (if V < 65536 \<or> 1114111 < V
           then (i + 4, [0xFFFD, 0xFFFD, 0xFFFD, 0xFFFD])
           else (i + 4, [of_nat (55296 + (V - 65536) div 1024),
                         of_nat (56320 + (V - 65536) mod 1024)]))"
    proof (cases "V < 65536 \<or> 1114111 < V")
      case True
      then show ?thesis
        unfolding raw by (simp only: if_True)
    next
      case False
      then have "65536 \<le> V" "V \<le> 1114111"
        by simp_all
      from surrogate_pair_of_nat [OF this] False show ?thesis
        unfolding raw by (simp only: if_False)
    qed
    then show ?thesis
      using True by (simp add: V_def Let_def)
  qed
qed

section \<open>Surrogates in the decoded form\<close>

text \<open>
  For the proofs: a unit sequence in which every high surrogate is followed at once by a low
  surrogate, and no low surrogate stands anywhere else.
\<close>

fun well_paired :: "char16 list \<Rightarrow> bool" where
  "well_paired [] = True"
| "well_paired [x] = (\<not> (0xD800 \<le> x \<and> x \<le> 0xDFFF))"
| "well_paired (x # y # r) =
     (if 0xD800 \<le> x \<and> x \<le> 0xDBFF then 0xDC00 \<le> y \<and> y \<le> 0xDFFF \<and> well_paired r
      else \<not> (0xDC00 \<le> x \<and> x \<le> 0xDFFF) \<and> well_paired (y # r))"

lemma well_paired_Cons_plain:
  "\<not> (0xD800 \<le> x \<and> x \<le> 0xDFFF) \<Longrightarrow> well_paired (x # xs) = well_paired xs"
  by (cases xs) (auto simp: word_le_nat_alt)

lemma well_paired_append:
  "well_paired xs \<Longrightarrow> well_paired ys \<Longrightarrow> well_paired (xs @ ys)"
proof (induction xs rule: well_paired.induct)
  case 1
  then show ?case by simp
next
  case (2 x)
  then show ?case by (simp add: well_paired_Cons_plain)
next
  case (3 x y r)
  then show ?case by (auto split: if_splits)
qed

lemma char16_of_nat_compare:
  assumes "N < 2 ^ 16"
  shows "(0xD800 :: char16) \<le> of_nat N \<longleftrightarrow> 55296 \<le> N"
    and "(of_nat N :: char16) \<le> 0xDBFF \<longleftrightarrow> N \<le> 56319"
    and "(0xDC00 :: char16) \<le> of_nat N \<longleftrightarrow> 56320 \<le> N"
    and "(of_nat N :: char16) \<le> 0xDFFF \<longleftrightarrow> N \<le> 57343"
  by (simp_all add: word_le_nat_alt unat_of_nat_char16 [OF assms])

lemma well_paired_plain_unit:
  assumes "N < 55296 \<or> 57343 < N" "N < 2 ^ 16"
  shows "well_paired [of_nat N]"
  using assms(1) by (auto simp: char16_of_nat_compare [OF assms(2)])

lemma well_paired_pair:
  assumes "d < 1024" "m < 1024"
  shows "well_paired [of_nat (55296 + d), of_nat (56320 + m)]"
proof -
  have d: "55296 + d < 2 ^ 16" and m: "56320 + m < 2 ^ 16"
    using assms by simp_all
  show ?thesis
    by (simp only: well_paired.simps char16_of_nat_compare [OF d] char16_of_nat_compare [OF m])
       (use assms in simp)
qed

lemma well_paired_replacement:
  "well_paired [0xFFFD]" "well_paired [0xFFFD, 0xFFFD]" "well_paired [0xFFFD, 0xFFFD, 0xFFFD]"
  "well_paired [0xFFFD, 0xFFFD, 0xFFFD, 0xFFFD]"
  by simp_all


lemma well_paired_step: "well_paired (snd (get_utf16_step bs i))"
proof -
  define n where "n = (\<lambda>k. unat (bs ! (i + k)))"
  have n0: "unat (bs ! i) = n 0"
    by (simp add: n_def)
  consider "n 0 < 128" | "128 \<le> n 0 \<and> n 0 \<le> 191 \<or> 248 \<le> n 0" | "192 \<le> n 0 \<and> n 0 \<le> 223"
    | "224 \<le> n 0 \<and> n 0 \<le> 239" | "240 \<le> n 0 \<and> n 0 \<le> 247"
    by linarith
  then show ?thesis
  proof cases
    case 1
    have "(ucast (bs ! i) :: char16) = of_nat (n 0)"
      by (simp add: n_def)
    moreover have "well_paired [of_nat (n 0)]"
      using 1 by (intro well_paired_plain_unit) simp_all
    ultimately show ?thesis
      using 1 by (simp only: step_ascii n0 snd_conv)
  next
    case 2
    then show ?thesis
      by (simp only: step_other n0 snd_conv well_paired_replacement)
  next
    case 3
    define V where "V = (n 0 - 192) * 64 + (n 1 - 128)"
    have "128 \<le> n 1 \<and> n 1 \<le> 191 \<Longrightarrow> V < 2048"
      using 3 unfolding V_def by linarith
    then have "128 \<le> n 1 \<and> n 1 \<le> 191 \<Longrightarrow> well_paired [of_nat V]"
      by (intro well_paired_plain_unit) simp_all
    then show ?thesis
      using 3 step_lead2 [of bs i]
      by (auto simp: n_def V_def Let_def well_paired_replacement simp del: well_paired.simps of_nat_add of_nat_mult)
  next
    case 4
    define V where "V = (n 0 - 224) * 4096 + (n 1 - 128) * 64 + (n 2 - 128)"
    have "128 \<le> n 1 \<and> n 1 \<le> 191 \<Longrightarrow> 128 \<le> n 2 \<and> n 2 \<le> 191 \<Longrightarrow> V < 65536"
      using 4 unfolding V_def by linarith
    then have "128 \<le> n 1 \<and> n 1 \<le> 191 \<Longrightarrow> 128 \<le> n 2 \<and> n 2 \<le> 191
        \<Longrightarrow> \<not> (V < 2048 \<or> (55296 \<le> V \<and> V \<le> 57343)) \<Longrightarrow> well_paired [of_nat V]"
      by (intro well_paired_plain_unit) auto
    then show ?thesis
      using 4 step_lead3 [of bs i]
      by (auto simp: n_def V_def Let_def well_paired_replacement simp del: well_paired.simps of_nat_add of_nat_mult)
  next
    case 5
    define V where "V = (n 0 - 240) * 262144 + (n 1 - 128) * 4096 + (n 2 - 128) * 64 + (n 3 - 128)"
    have "well_paired [of_nat (55296 + (V - 65536) div 1024), of_nat (56320 + (V - 65536) mod 1024)]"
      if "\<not> (V < 65536 \<or> 1114111 < V)"
    proof (rule well_paired_pair)
      have "V - 65536 < 1024 * 1024"
        using that by linarith
      then show "(V - 65536) div 1024 < 1024"
        by (rule less_mult_imp_div_less)
      show "(V - 65536) mod 1024 < 1024"
        by simp
    qed
    then show ?thesis
      using 5 step_lead4 [of bs i]
      by (auto simp: n_def V_def Let_def well_paired_replacement simp del: well_paired.simps of_nat_add of_nat_mult)
  qed
qed

lemma well_paired_loop:
  "well_paired result \<Longrightarrow> well_paired (snd (get_utf16_loop bs str result))"
proof (induction bs str result rule: get_utf16_loop.induct)
  case (1 bs str result)
  show ?case
  proof (cases "str < length bs")
    case True
    have "well_paired (result @ snd (get_utf16_step bs str))"
      using "1.prems" well_paired_step by (rule well_paired_append)
    then show ?thesis
      using "1.IH" True by (subst get_utf16_loop.simps) simp
  next
    case False
    then show ?thesis
      using "1.prems" by (subst get_utf16_loop.simps) simp
  qed
qed

lemma well_paired_decode: "well_paired (decode_utf16 bs)"
  unfolding decode_utf16_def by (rule well_paired_loop) simp

lemma well_paired_nth:
  "well_paired u \<Longrightarrow> j < length u \<Longrightarrow>
    (0xD800 \<le> u ! j \<and> u ! j \<le> 0xDBFF \<longrightarrow>
       j + 1 < length u \<and> 0xDC00 \<le> u ! (j + 1) \<and> u ! (j + 1) \<le> 0xDFFF)
    \<and> (0xDC00 \<le> u ! j \<and> u ! j \<le> 0xDFFF \<longrightarrow>
       0 < j \<and> 0xD800 \<le> u ! (j - 1) \<and> u ! (j - 1) \<le> 0xDBFF)"
proof (induction u arbitrary: j rule: well_paired.induct)
  case 1
  then show ?case by simp
next
  case (2 x)
  then show ?case by (auto simp: word_le_nat_alt)
next
  case (3 x y r)
  show ?case
  proof (cases "0xD800 \<le> x \<and> x \<le> 0xDBFF")
    case True
    with "3.prems" have y: "0xDC00 \<le> y \<and> y \<le> 0xDFFF" and r: "well_paired r"
      by simp_all
    consider "j = 0" | "j = 1" | "2 \<le> j"
      by linarith
    then show ?thesis
    proof cases
      case 1
      then show ?thesis using True y by (auto simp: word_le_nat_alt)
    next
      case 2
      then show ?thesis using True y by (auto simp: word_le_nat_alt)
    next
      case 3
      then obtain k where k: "j = k + 2"
        by (metis add.commute le_Suc_ex)
      then have "k < length r"
        using "3.prems" by simp
      from "3.IH"(1) [OF True r this] show ?thesis
        using True y by (cases k) (auto simp: k)
    qed
  next
    case False
    with "3.prems" have x: "\<not> (0xDC00 \<le> x \<and> x \<le> 0xDFFF)" and r: "well_paired (y # r)"
      by simp_all
    show ?thesis
    proof (cases j)
      case 0
      then show ?thesis using False x by auto
    next
      case (Suc k)
      then have "k < length (y # r)"
        using "3.prems" by simp
      from "3.IH"(2) [OF False r this] show ?thesis
        using False x by (cases k) (auto simp: Suc)
    qed
  qed
qed

text \<open>
  C9. For every byte sequence, the decoded sequence has no unpaired surrogate: every high
  surrogate unit is followed at once by a low surrogate unit, and every low surrogate unit
  is preceded at once by a high surrogate unit. The decoded form of a view whose cache
  invariant holds is the decoded sequence of its bytes.
\<close>

theorem decoded_surrogates_paired:
  "(let u = decode_utf16 bs in
     \<forall>j < length u.
       (0xD800 \<le> u ! j \<and> u ! j \<le> 0xDBFF \<longrightarrow>
          j + 1 < length u \<and> 0xDC00 \<le> u ! (j + 1) \<and> u ! (j + 1) \<le> 0xDFFF)
       \<and> (0xDC00 \<le> u ! j \<and> u ! j \<le> 0xDFFF \<longrightarrow>
          0 < j \<and> 0xD800 \<le> u ! (j - 1) \<and> u ! (j - 1) \<le> 0xDBFF))
   \<and> (cache_ok h s \<longrightarrow> fst (get_utf16 h s) = decode_utf16 (view_bytes h s))"
proof
  show "let u = decode_utf16 bs in
     \<forall>j < length u.
       (0xD800 \<le> u ! j \<and> u ! j \<le> 0xDBFF \<longrightarrow>
          j + 1 < length u \<and> 0xDC00 \<le> u ! (j + 1) \<and> u ! (j + 1) \<le> 0xDFFF)
       \<and> (0xDC00 \<le> u ! j \<and> u ! j \<le> 0xDFFF \<longrightarrow>
          0 < j \<and> 0xD800 \<le> u ! (j - 1) \<and> u ! (j - 1) \<le> 0xDBFF)"
    unfolding Let_def using well_paired_nth [OF well_paired_decode] by blast
  show "cache_ok h s \<longrightarrow> fst (get_utf16 h s) = decode_utf16 (view_bytes h s)"
    by (cases "m_utf16_cache s") (simp_all add: get_utf16_def cache_ok_def Let_def)
qed

theorem decoded_surrogates_paired_witness:
  "decode_utf16 [0x41, 0xF0, 0x9D, 0x92, 0x9C, 0x42] ! 1 = 0xD835
   \<and> 0xDC00 \<le> decode_utf16 [0x41, 0xF0, 0x9D, 0x92, 0x9C, 0x42] ! 2
   \<and> decode_utf16 [0x41, 0xF0, 0x9D, 0x92, 0x9C, 0x42] ! 2 \<le> 0xDFFF
   \<and> decode_utf16 [0xED, 0xA0, 0x80] = [0xFFFD, 0xFFFD, 0xFFFD]
   \<and> cache_ok [[0xED, 0xA0, 0x80]] \<lparr>m_data = 0, m_offset = 0, m_length = 3, m_utf16_cache = None\<rparr>
   \<and> fst (get_utf16 [[0xED, 0xA0, 0x80]]
          \<lparr>m_data = 0, m_offset = 0, m_length = 3, m_utf16_cache = None\<rparr>)
       = [0xFFFD, 0xFFFD, 0xFFFD]"
proof -
  let ?bs = "[0x41, 0xF0, 0x9D, 0x92, 0x9C, 0x42] :: u8 list"
  let ?h = "[[0xED, 0xA0, 0x80]] :: buffers"
  let ?s = "\<lparr>m_data = 0, m_offset = 0, m_length = 3, m_utf16_cache = None\<rparr>"
  have len: "length (decode_utf16 ?bs) = 4" and hi: "decode_utf16 ?bs ! 1 = 0xD835"
    by code_simp+
  have sub: "decode_utf16 [0xED, 0xA0, 0x80] = [0xFFFD, 0xFFFD, 0xFFFD]"
    by code_simp
  have ok: "cache_ok ?h ?s"
    by (simp add: cache_ok_def)
  have vb: "view_bytes ?h ?s = [0xED, 0xA0, 0x80]"
    by (simp add: view_bytes_def)
  from decoded_surrogates_paired [of ?bs ?h ?s, THEN conjunct1, unfolded Let_def,
      rule_format, of 1] len hi
  have "0xDC00 \<le> decode_utf16 ?bs ! Suc (Suc 0) \<and> decode_utf16 ?bs ! Suc (Suc 0) \<le> 0xDFFF"
    by simp
  moreover have "Suc (Suc 0) = 2"
    by simp
  ultimately have "0xDC00 \<le> decode_utf16 ?bs ! 2 \<and> decode_utf16 ?bs ! 2 \<le> 0xDFFF"
    by (simp only:)
  moreover from decoded_surrogates_paired [of ?bs ?h ?s] ok
  have "fst (get_utf16 ?h ?s) = decode_utf16 (view_bytes ?h ?s)"
    by blast
  ultimately show ?thesis
    using hi sub ok vb by simp
qed

section \<open>The substitution policy of the decoder\<close>

lemma get_utf16_loop_unfold:
  "i < length bs \<Longrightarrow>
    get_utf16_loop bs i result
      = get_utf16_loop bs (fst (get_utf16_step bs i)) (result @ snd (get_utf16_step bs i))"
  by (subst get_utf16_loop.simps) simp

lemma get_utf16_loop_acc:
  "snd (get_utf16_loop bs i r) = r @ snd (get_utf16_loop bs i [])"
proof (induction "length bs - i" arbitrary: i r rule: less_induct)
  case less
  show ?case
  proof (cases "i < length bs")
    case True
    let ?a = "fst (get_utf16_step bs i)" and ?us = "snd (get_utf16_step bs i)"
    have "length bs - ?a < length bs - i"
      using True get_utf16_step_advance [of i bs] by simp
    from less [OF this, of "r @ ?us"] less [OF this, of "[] @ ?us"]
    show ?thesis
      by (simp add: get_utf16_loop_unfold [OF True])
  next
    case False
    then show ?thesis
      by (simp add: get_utf16_loop.simps [of bs i])
  qed
qed

lemma view_bytes_nth:
  assumes "in_bounds h s"
  shows "view_bytes h s = map (\<lambda>k. h ! m_data s ! (m_offset s + k)) [0..<m_length s]"
proof (rule nth_equalityI)
  show "length (view_bytes h s)
      = length (map (\<lambda>k. h ! m_data s ! (m_offset s + k)) [0..<m_length s])"
    using length_view_bytes [OF assms] by simp
next
  fix k
  assume "k < length (view_bytes h s)"
  then have k: "k < m_length s"
    using length_view_bytes [OF assms] by simp
  then show "view_bytes h s ! k
      = map (\<lambda>k. h ! m_data s ! (m_offset s + k)) [0..<m_length s] ! k"
    using assms by (simp add: view_bytes_def in_bounds_def)
qed

lemma get_utf16_loop_exit:
  "length bs \<le> i \<Longrightarrow> get_utf16_loop bs i result = (i, result)"
  by (subst get_utf16_loop.simps) simp

lemma get_utf16_loop_closed:
  "i \<le> length bs \<Longrightarrow>
    get_utf16_loop bs i result = (length bs, result @ snd (get_utf16_loop bs i []))"
  using get_utf16_loop_end [of i bs result] get_utf16_loop_acc [of bs i result]
  by (simp add: prod_eq_iff)

text \<open>
  C1. For every byte sequence \<open>bs\<close> the decoding loop of \<open>get_utf16\<close> is total, stops exactly at
  the end of the range, and returns the units it pushed: started at the beginning with an
  empty \<open>result\<close> it returns \<open>decode_utf16 bs\<close>; at or past the end it returns \<open>result\<close>
  unchanged; from any position it returns \<open>result\<close> followed by what it decodes from there on.
  At every position \<open>i\<close> inside the range, with \<open>n k\<close> the value of the byte at \<open>i + k\<close> and a
  continuation byte being one in \<open>0x80..0xBF\<close> inside the range, one iteration pushes \<open>units\<close>
  and advances \<open>adv\<close> bytes, staying inside the range, so that the loop returns \<open>result\<close>, then
  \<open>units\<close>, then the decoding from \<open>i + adv\<close> on:
  \<^item> a byte below \<open>0x80\<close>: the byte itself, 1 byte;
  \<^item> a lead \<open>0xC0..0xDF\<close>, \<open>0xE0..0xEF\<close>, \<open>0xF0..0xF7\<close> whose 1, 2, 3 continuation bytes are not
    all there: one \<open>U+FFFD\<close>, 1 byte;
  \<^item> a complete sequence whose assembled value \<open>V\<close> is overlong (below \<open>0x80\<close>, \<open>0x800\<close>,
    \<open>0x10000\<close>), a surrogate (3-byte form), or above \<open>0x10FFFF\<close> (4-byte form): 2, 3, 4 times
    \<open>U+FFFD\<close>, and 2, 3, 4 bytes;
  \<^item> a complete sequence with a valid value: the unit \<open>V\<close> and 2 or 3 bytes, or, in the 4-byte
    form, the high and the low surrogate of \<open>V - 0x10000\<close> and 4 bytes;
  \<^item> a continuation byte in lead position or a byte from \<open>0xF8\<close> on: one \<open>U+FFFD\<close>, 1 byte.

  \<open>get_utf16\<close> on a view whose bytes \<open>data[offset .. offset + length)\<close> are \<open>bs\<close> returns
  \<open>decode_utf16 bs\<close> and stores it in the cache when the cache is empty, and returns the cache,
  leaving the view as it is, when it is filled.
\<close>

theorem get_utf16_policy:
  "get_utf16_loop bs 0 [] = (length bs, decode_utf16 bs)
   \<and> (\<forall>i result. length bs \<le> i \<longrightarrow> get_utf16_loop bs i result = (i, result))
   \<and> (\<forall>i result. i \<le> length bs \<longrightarrow>
        get_utf16_loop bs i result = (length bs, result @ snd (get_utf16_loop bs i [])))
   \<and> (\<forall>i result. i < length bs \<longrightarrow>
        (let n = (\<lambda>k. unat (bs ! (i + k)));
             cont = (\<lambda>k. i + k < length bs \<and> 0x80 \<le> n k \<and> n k \<le> 0xBF);
             emits = (\<lambda>adv units. get_utf16_step bs i = (i + adv, units)
                        \<and> i + adv \<le> length bs
                        \<and> get_utf16_loop bs i result
                            = get_utf16_loop bs (i + adv) (result @ units)
                        \<and> get_utf16_loop bs i result
                            = (length bs, result @ units @ snd (get_utf16_loop bs (i + adv) [])))
         in (n 0 < 0x80 \<longrightarrow> emits 1 [of_nat (n 0)])
          \<and> (0xC0 \<le> n 0 \<and> n 0 \<le> 0xDF \<longrightarrow>
               (if cont 1
                then (let V = (n 0 - 0xC0) * 64 + (n 1 - 0x80)
                      in if V < 0x80 then emits 2 [0xFFFD, 0xFFFD] else emits 2 [of_nat V])
                else emits 1 [0xFFFD]))
          \<and> (0xE0 \<le> n 0 \<and> n 0 \<le> 0xEF \<longrightarrow>
               (if cont 1 \<and> cont 2
                then (let V = (n 0 - 0xE0) * 4096 + (n 1 - 0x80) * 64 + (n 2 - 0x80)
                      in if V < 0x800 \<or> (0xD800 \<le> V \<and> V \<le> 0xDFFF)
                         then emits 3 [0xFFFD, 0xFFFD, 0xFFFD] else emits 3 [of_nat V])
                else emits 1 [0xFFFD]))
          \<and> (0xF0 \<le> n 0 \<and> n 0 \<le> 0xF7 \<longrightarrow>
               (if cont 1 \<and> cont 2 \<and> cont 3
                then (let V = (n 0 - 0xF0) * 262144 + (n 1 - 0x80) * 4096
                              + (n 2 - 0x80) * 64 + (n 3 - 0x80)
                      in if V < 0x10000 \<or> 0x10FFFF < V
                         then emits 4 [0xFFFD, 0xFFFD, 0xFFFD, 0xFFFD]
                         else emits 4 [of_nat (0xD800 + (V - 0x10000) div 1024),
                                       of_nat (0xDC00 + (V - 0x10000) mod 1024)])
                else emits 1 [0xFFFD]))
          \<and> ((0x80 \<le> n 0 \<and> n 0 \<le> 0xBF) \<or> 0xF8 \<le> n 0 \<longrightarrow> emits 1 [0xFFFD])))
   \<and> (\<forall>h s. in_bounds h s
          \<and> map (\<lambda>k. h ! m_data s ! (m_offset s + k)) [0..<m_length s] = bs \<longrightarrow>
        (case m_utf16_cache s of
           None \<Rightarrow> get_utf16 h s = (decode_utf16 bs, s\<lparr>m_utf16_cache := Some (decode_utf16 bs)\<rparr>)
         | Some cache \<Rightarrow> get_utf16 h s = (cache, s)))"
proof (intro conjI allI impI)
  show "get_utf16_loop bs 0 [] = (length bs, decode_utf16 bs)"
    using get_utf16_loop_closed [of 0 bs "[]"] by (simp add: decode_utf16_def)
next
  fix i result
  assume "length bs \<le> i"
  then show "get_utf16_loop bs i result = (i, result)"
    by (rule get_utf16_loop_exit)
next
  fix i result
  assume "i \<le> length bs"
  then show "get_utf16_loop bs i result = (length bs, result @ snd (get_utf16_loop bs i []))"
    by (rule get_utf16_loop_closed)
next
  fix h s
  assume "in_bounds h s
    \<and> map (\<lambda>k. h ! m_data s ! (m_offset s + k)) [0..<m_length s] = bs"
  then have "view_bytes h s = bs"
    using view_bytes_nth [of h s] by simp
  then show "case m_utf16_cache s of
      None \<Rightarrow> get_utf16 h s = (decode_utf16 bs, s\<lparr>m_utf16_cache := Some (decode_utf16 bs)\<rparr>)
    | Some cache \<Rightarrow> get_utf16 h s = (cache, s)"
    by (simp add: get_utf16_def Let_def split: option.split)
next
  fix i result
  assume i: "i < length bs"
  let ?a = "fst (get_utf16_step bs i)" and ?us = "snd (get_utf16_step bs i)"
  have W: "?a \<le> length bs"
    using i by (rule get_utf16_step_within)
  have L: "get_utf16_loop bs i result = get_utf16_loop bs ?a (result @ ?us)"
    using i by (rule get_utf16_loop_unfold)
  have K: "get_utf16_loop bs i result = (length bs, result @ ?us @ snd (get_utf16_loop bs ?a []))"
    using get_utf16_loop_closed [OF W, of "result @ ?us"] L by simp
  have E: "(get_utf16_step bs i = (a, us) \<and> a \<le> length bs
            \<and> get_utf16_loop bs i result = get_utf16_loop bs a (result @ us)
            \<and> get_utf16_loop bs i result
                = (length bs, result @ us @ snd (get_utf16_loop bs a [])))
          = (get_utf16_step bs i = (a, us))" for a us
    using W L K by auto
  show "let n = (\<lambda>k. unat (bs ! (i + k)));
             cont = (\<lambda>k. i + k < length bs \<and> 0x80 \<le> n k \<and> n k \<le> 0xBF);
             emits = (\<lambda>adv units. get_utf16_step bs i = (i + adv, units)
                        \<and> i + adv \<le> length bs
                        \<and> get_utf16_loop bs i result
                            = get_utf16_loop bs (i + adv) (result @ units)
                        \<and> get_utf16_loop bs i result
                            = (length bs, result @ units @ snd (get_utf16_loop bs (i + adv) [])))
         in (n 0 < 0x80 \<longrightarrow> emits 1 [of_nat (n 0)])
          \<and> (0xC0 \<le> n 0 \<and> n 0 \<le> 0xDF \<longrightarrow>
               (if cont 1
                then (let V = (n 0 - 0xC0) * 64 + (n 1 - 0x80)
                      in if V < 0x80 then emits 2 [0xFFFD, 0xFFFD] else emits 2 [of_nat V])
                else emits 1 [0xFFFD]))
          \<and> (0xE0 \<le> n 0 \<and> n 0 \<le> 0xEF \<longrightarrow>
               (if cont 1 \<and> cont 2
                then (let V = (n 0 - 0xE0) * 4096 + (n 1 - 0x80) * 64 + (n 2 - 0x80)
                      in if V < 0x800 \<or> (0xD800 \<le> V \<and> V \<le> 0xDFFF)
                         then emits 3 [0xFFFD, 0xFFFD, 0xFFFD] else emits 3 [of_nat V])
                else emits 1 [0xFFFD]))
          \<and> (0xF0 \<le> n 0 \<and> n 0 \<le> 0xF7 \<longrightarrow>
               (if cont 1 \<and> cont 2 \<and> cont 3
                then (let V = (n 0 - 0xF0) * 262144 + (n 1 - 0x80) * 4096
                              + (n 2 - 0x80) * 64 + (n 3 - 0x80)
                      in if V < 0x10000 \<or> 0x10FFFF < V
                         then emits 4 [0xFFFD, 0xFFFD, 0xFFFD, 0xFFFD]
                         else emits 4 [of_nat (0xD800 + (V - 0x10000) div 1024),
                                       of_nat (0xDC00 + (V - 0x10000) mod 1024)])
                else emits 1 [0xFFFD]))
          \<and> ((0x80 \<le> n 0 \<and> n 0 \<le> 0xBF) \<or> 0xF8 \<le> n 0 \<longrightarrow> emits 1 [0xFFFD])"
    unfolding Let_def E
    apply (intro conjI)
    subgoal using step_ascii [of bs i] by auto
    subgoal using step_lead2 [of bs i] by (auto simp: Let_def)
    subgoal using step_lead3 [of bs i] by (auto simp: Let_def)
    subgoal using step_lead4 [of bs i] by (auto simp: Let_def)
    subgoal using step_other [of bs i] by auto
    done
qed


theorem get_utf16_policy_witness:
  "get_utf16_loop [0xE0, 0x80, 0x80] 0 [] = (3, [0xFFFD, 0xFFFD, 0xFFFD])
   \<and> decode_utf16 [0xE0, 0x80, 0x80] = [0xFFFD, 0xFFFD, 0xFFFD]
   \<and> get_utf16 [[0x41, 0xE0, 0x80, 0x80]]
        \<lparr>m_data = 0, m_offset = 1, m_length = 3, m_utf16_cache = None\<rparr>
       = ([0xFFFD, 0xFFFD, 0xFFFD],
          \<lparr>m_data = 0, m_offset = 1, m_length = 3,
           m_utf16_cache = Some [0xFFFD, 0xFFFD, 0xFFFD]\<rparr>)
   \<and> get_utf16_step [0xE0, 0x80, 0x80] 0 = (3, [0xFFFD, 0xFFFD, 0xFFFD])
   \<and> get_utf16_step [0xC0, 0x58] 0 = (1, [0xFFFD])
   \<and> get_utf16_step [0x41, 0xF0, 0x9D, 0x92, 0x9C, 0x42] 1 = (5, [0xD835, 0xDC9C])
   \<and> get_utf16_step [0xC3, 0xA9] 0 = (2, [0xE9])
   \<and> get_utf16_step [0x41, 0xBF] 1 = (2, [0xFFFD])"
proof -
  note P = get_utf16_policy [of "[0xE0, 0x80, 0x80]"]
  have stop: "get_utf16_loop [0xE0, 0x80, 0x80] 3 [] = (3, [])"
    using P [THEN conjunct2, THEN conjunct1, rule_format, of 3 "[]"] by simp
  have first: "get_utf16_step [0xE0, 0x80, 0x80] 0 = (3, [0xFFFD, 0xFFFD, 0xFFFD])
      \<and> get_utf16_loop [0xE0, 0x80, 0x80] 0 []
          = (3, [0xFFFD, 0xFFFD, 0xFFFD] @ snd (get_utf16_loop [0xE0, 0x80, 0x80] 3 []))"
    using P [THEN conjunct2, THEN conjunct2, THEN conjunct2, THEN conjunct1, rule_format,
        of 0 "[]"]
    by (simp add: Let_def numeral_3_eq_3) metis
  have loop: "get_utf16_loop [0xE0, 0x80, 0x80] 0 [] = (3, [0xFFFD, 0xFFFD, 0xFFFD])"
    using first stop by simp
  have dec: "decode_utf16 [0xE0, 0x80, 0x80] = [0xFFFD, 0xFFFD, 0xFFFD]"
    using P [THEN conjunct1] loop by simp
  have "get_utf16 [[0x41, 0xE0, 0x80, 0x80]]
        \<lparr>m_data = 0, m_offset = 1, m_length = 3, m_utf16_cache = None\<rparr>
       = (decode_utf16 [0xE0, 0x80, 0x80],
          \<lparr>m_data = 0, m_offset = 1, m_length = 3,
           m_utf16_cache = Some (decode_utf16 [0xE0, 0x80, 0x80])\<rparr>)"
    using P [THEN conjunct2, THEN conjunct2, THEN conjunct2, THEN conjunct2, rule_format,
        of "[[0x41, 0xE0, 0x80, 0x80]]"
           "\<lparr>m_data = 0, m_offset = 1, m_length = 3, m_utf16_cache = None\<rparr>"]
    by (simp add: in_bounds_def upt_rec)
  then have cached: "get_utf16 [[0x41, 0xE0, 0x80, 0x80]]
        \<lparr>m_data = 0, m_offset = 1, m_length = 3, m_utf16_cache = None\<rparr>
       = ([0xFFFD, 0xFFFD, 0xFFFD],
          \<lparr>m_data = 0, m_offset = 1, m_length = 3,
           m_utf16_cache = Some [0xFFFD, 0xFFFD, 0xFFFD]\<rparr>)"
    using dec by simp
  have "get_utf16_step [0xC0, 0x58] 0 = (1, [0xFFFD])"
    using get_utf16_policy [of "[0xC0, 0x58]", THEN conjunct2, THEN conjunct2, THEN conjunct2,
        THEN conjunct1, rule_format, of 0 "[]"]
    by (simp add: Let_def)
  moreover have "get_utf16_step [0x41, 0xF0, 0x9D, 0x92, 0x9C, 0x42] 1 = (5, [0xD835, 0xDC9C])"
    using get_utf16_policy [of "[0x41, 0xF0, 0x9D, 0x92, 0x9C, 0x42]", THEN conjunct2,
        THEN conjunct2, THEN conjunct2, THEN conjunct1, rule_format, of 1 "[]"]
    by (simp add: Let_def)
  moreover have "get_utf16_step [0xC3, 0xA9] 0 = (2, [0xE9])"
    using get_utf16_policy [of "[0xC3, 0xA9]", THEN conjunct2, THEN conjunct2, THEN conjunct2,
        THEN conjunct1, rule_format, of 0 "[]"]
    by (simp add: Let_def)
  moreover have "get_utf16_step [0x41, 0xBF] 1 = (2, [0xFFFD])"
    using get_utf16_policy [of "[0x41, 0xBF]", THEN conjunct2, THEN conjunct2, THEN conjunct2,
        THEN conjunct1, rule_format, of 1 "[]"]
    by (simp add: Let_def)
  ultimately show ?thesis
    using loop dec cached first by simp
qed

section \<open>The byte-offset scan of \<open>substring\<close> against the decoder\<close>

text \<open>
  The scan advances over the same byte sequences as the decoder. It counts one unit for
  every sequence but a structurally complete 4-byte one, for which it counts two, and it
  does not look at the assembled value.
\<close>

lemma scan_step_fst:
  "fst (substring_scan_step bs i) = fst (get_utf16_step bs i)"
  by (simp add: substring_scan_step_def get_utf16_step_def Let_def)



















lemma substring_scan_loop_unfold:
  "i < length bs \<Longrightarrow> c < t \<Longrightarrow>
    substring_scan_loop bs t i c
      = substring_scan_loop bs t (fst (substring_scan_step bs i))
          (c + snd (substring_scan_step bs i))"
  by (subst substring_scan_loop.simps) simp

lemma substring_scan_loop_stop:
  "\<not> (i < length bs \<and> c < t) \<Longrightarrow> substring_scan_loop bs t i c = i"
  by (subst substring_scan_loop.simps) auto






section \<open>Views stay inside their buffers\<close>

text \<open>
  The model reads offsets and lengths as natural numbers, where the class has \<open>std::size_t\<close>.
  The two agree as long as no subtraction goes below zero and every view lies inside its
  buffer. The scan never moves backwards, never leaves the byte range, and is monotone in the
  target index, so \<open>utf8_end - utf8_begin\<close> in \<open>substring\<close> is a difference of ordered offsets;
  the constructor, the decoder and \<open>substring\<close> return views for which \<open>in_bounds\<close> and
  \<open>cache_ok\<close> hold again.
\<close>

lemma substring_scan_step_within:
  "i < length bs \<Longrightarrow> fst (substring_scan_step bs i) \<le> length bs"
  by (simp add: scan_step_fst get_utf16_step_within)

lemma substring_scan_loop_ge: "i \<le> substring_scan_loop bs t i c"
proof (induction bs t i c rule: substring_scan_loop.induct)
  case (1 bs t i c)
  show ?case
  proof (cases "i < length bs \<and> c < t")
    case True
    then have "fst (substring_scan_step bs i) \<le> substring_scan_loop bs t i c"
      using "1.IH" substring_scan_loop_unfold [of i bs c t] by simp
    then show ?thesis
      using substring_scan_step_advance [of i bs] by simp
  next
    case False
    then show ?thesis
      by (simp add: substring_scan_loop_stop)
  qed
qed

lemma substring_scan_loop_le:
  "i \<le> length bs \<Longrightarrow> substring_scan_loop bs t i c \<le> length bs"
proof (induction bs t i c rule: substring_scan_loop.induct)
  case (1 bs t i c)
  show ?case
  proof (cases "i < length bs \<and> c < t")
    case True
    then show ?thesis
      using "1.IH" substring_scan_step_within [of i bs] substring_scan_loop_unfold [of i bs c t]
      by simp
  next
    case False
    then show ?thesis
      using "1.prems" by (simp add: substring_scan_loop_stop)
  qed
qed

lemma substring_scan_loop_mono:
  "t \<le> t' \<Longrightarrow> substring_scan_loop bs t i c \<le> substring_scan_loop bs t' i c"
proof (induction bs t i c rule: substring_scan_loop.induct)
  case (1 bs t i c)
  show ?case
  proof (cases "i < length bs \<and> c < t")
    case True
    then have "i < length bs" "c < t" "c < t'"
      using "1.prems" by simp_all
    then show ?thesis
      using "1.IH" "1.prems" substring_scan_loop_unfold [of i bs c t]
        substring_scan_loop_unfold [of i bs c t']
      by simp
  next
    case False
    then show ?thesis
      using substring_scan_loop_ge [of i bs t' c] by (simp add: substring_scan_loop_stop)
  qed
qed

lemma String_new_invariants:
  "in_bounds (fst (String_new h str)) (snd (String_new h str))
   \<and> cache_ok (fst (String_new h str)) (snd (String_new h str))
   \<and> view_bytes (fst (String_new h str)) (snd (String_new h str)) = str"
  by (simp add: String_new_def in_bounds_def cache_ok_def view_bytes_def)

lemma get_utf16_invariants:
  assumes "in_bounds h s" "cache_ok h s"
  shows "in_bounds h (snd (get_utf16 h s)) \<and> cache_ok h (snd (get_utf16 h s))
    \<and> view_bytes h (snd (get_utf16 h s)) = view_bytes h s"
  using assms
  by (cases "m_utf16_cache s")
     (simp_all add: get_utf16_def Let_def in_bounds_def cache_ok_def view_bytes_def)

lemma substring_invariants:
  assumes "in_bounds h s" "cache_ok h s" and sub: "substring h s b e = Inr (h', r)"
  shows "in_bounds h' r \<and> cache_ok h' r"
proof -
  let ?u = "fst (get_utf16 h s)"
  have be: "b \<le> length ?u" "e \<le> length ?u" "b \<le> e"
    using sub by (auto simp: substring_def Let_def split: if_splits)
  consider (full) "b = 0 \<and> e = length ?u" | (empty) "\<not> (b = 0 \<and> e = length ?u)" "b = e"
    | (slice) "\<not> (b = 0 \<and> e = length ?u)" "b \<noteq> e"
    by blast
  then show ?thesis
  proof cases
    case full
    then have "h' = h" "r = snd (get_utf16 h s)"
      using sub be by (auto simp: substring_def Let_def)
    then show ?thesis
      using get_utf16_invariants [OF assms(1,2)] by simp
  next
    case empty
    then have "(h', r) = String_new h []"
      using sub be by (auto simp: substring_def Let_def)
    then show ?thesis
      using String_new_invariants [of h "[]"] by (metis fst_conv snd_conv)
  next
    case slice
    let ?bs = "view_bytes h s"
    let ?ub = "if b > 0 then substring_scan_loop ?bs b 0 0 else 0"
    let ?ue = "if e > 0 then substring_scan_loop ?bs e 0 0 else 0"
    have r: "h' = h" "r = \<lparr>m_data = m_data s, m_offset = m_offset s + ?ub,
        m_length = ?ue - ?ub, m_utf16_cache = None\<rparr>"
      using sub be slice by (auto simp: substring_def Let_def)
    have "?ub \<le> ?ue"
      using be(3) substring_scan_loop_mono [of b e ?bs 0 0] by auto
    moreover have "?ue \<le> m_length s"
      using substring_scan_loop_le [of 0 ?bs e 0] length_view_bytes [OF assms(1)] by auto
    ultimately show ?thesis
      using assms(1) unfolding r by (simp add: in_bounds_def cache_ok_def)
  qed
qed

end
